theory Spec2Isabelle
  imports Complex_Main
begin

section \<open>A genetic algorithm for the multi-dimensional knapsack problem\<close>

text \<open>
  A shallow embedding of \<^verbatim>\<open>main.py\<close>. A numpy integer array is a list of \<open>int\<close> whose
  entries are the values of 64-bit integers: every sum, difference and product of the
  code is taken back into that range, as numpy does without a warning. A matrix is the
  list of its rows, and an exception is the left injection of a sum. The random
  generator is an input: every function that draws takes what was drawn as an argument.
\<close>

subsection \<open>Errors and the problem instance\<close>

datatype error =
    IndexError          \<comment> \<open>an index out of bounds\<close>
  | ValueError          \<comment> \<open>a sample larger than its pool, an arg-extremum of nothing\<close>
  | RestraintViolation  \<comment> \<open>the sanity checks' \<^verbatim>\<open>Exception("PROBLEM: ...")\<close>\<close>
  | UnknownOperator     \<comment> \<open>\<^verbatim>\<open>Exception("repair operator must be ...")\<close>\<close>

text \<open>
  \<^verbatim>\<open>class Problem\<close>: \<open>r\<close> is the \<open>knapsacks \<times> items\<close> matrix of costs, \<open>b\<close> the capacities
  and \<open>p\<close> the profits (in the source a \<open>1 \<times> items\<close> array: its only row is kept).
\<close>

record problem =
  items :: nat
  knapsacks :: nat
  r :: "int list list"
  b :: "int list"
  p :: "int list"

subsection \<open>Array arithmetic\<close>

definition int64 :: "int \<Rightarrow> int" where
  \<comment> \<open>the value a 64-bit two's-complement integer holds after a result \<open>x\<close>: it wraps\<close>
  "int64 x = signed_take_bit 63 x"

definition add64 :: "int \<Rightarrow> int \<Rightarrow> int" where
  "add64 x y = int64 (x + y)"

definition sub64 :: "int \<Rightarrow> int \<Rightarrow> int" where
  "sub64 x y = int64 (x - y)"

definition mul64 :: "int \<Rightarrow> int \<Rightarrow> int" where
  "mul64 x y = int64 (x * y)"

fun sum64 :: "int list \<Rightarrow> int" where
  \<comment> \<open>\<^verbatim>\<open>np.sum\<close> of 64-bit integers; the order of the additions does not change the result\<close>
  "sum64 [] = 0"
| "sum64 (x # xs) = add64 x (sum64 xs)"

definition column :: "int list list \<Rightarrow> nat \<Rightarrow> int list" where
  \<comment> \<open>\<^verbatim>\<open>problem.r[:, j]\<close>\<close>
  "column M j = map (\<lambda>row. row ! j) M"

definition dot :: "int list \<Rightarrow> int list \<Rightarrow> int" where
  \<comment> \<open>\<^verbatim>\<open>np.sum(np.multiply(xs, ys))\<close>\<close>
  "dot xs ys = sum64 (map2 mul64 xs ys)"

definition usage :: "problem \<Rightarrow> int list \<Rightarrow> int list" where
  \<comment> \<open>\<^verbatim>\<open>np.sum(np.multiply(problem.r[:, :], S[:]), axis=1)\<close>\<close>
  "usage pr S = map (\<lambda>row. dot row S) (r pr)"

definition vadd :: "int list \<Rightarrow> int list \<Rightarrow> int list" where
  \<comment> \<open>\<^verbatim>\<open>R + problem.r[:, j]\<close>\<close>
  "vadd xs ys = map2 add64 xs ys"

definition vsub :: "int list \<Rightarrow> int list \<Rightarrow> int list" where
  \<comment> \<open>\<^verbatim>\<open>R - problem.r[:, j]\<close>\<close>
  "vsub xs ys = map2 sub64 xs ys"

definition any_greater :: "int list \<Rightarrow> int list \<Rightarrow> bool" where
  \<comment> \<open>\<^verbatim>\<open>np.greater(R, b).any()\<close>\<close>
  "any_greater xs ys = list_ex (\<lambda>(x, y). x > y) (zip xs ys)"

definition all_less_equal :: "int list \<Rightarrow> int list \<Rightarrow> bool" where
  \<comment> \<open>\<^verbatim>\<open>np.less_equal(R, b).all()\<close>\<close>
  "all_less_equal xs ys = list_all (\<lambda>(x, y). x \<le> y) (zip xs ys)"

fun arg_best :: "(int \<Rightarrow> int \<Rightarrow> bool) \<Rightarrow> nat \<Rightarrow> int \<Rightarrow> nat \<Rightarrow> int list \<Rightarrow> nat" where
  "arg_best better bi bv i [] = bi"
| "arg_best better bi bv i (x # xs) =
     (if better x bv then arg_best better i x (Suc i) xs
      else arg_best better bi bv (Suc i) xs)"

definition argmax :: "int list \<Rightarrow> error + nat" where
  \<comment> \<open>\<^verbatim>\<open>np.argmax\<close>: the first position of the greatest entry\<close>
  "argmax xs = (case xs of [] \<Rightarrow> Inl ValueError | x # ys \<Rightarrow> Inr (arg_best (>) 0 x 1 ys))"

definition argmin :: "int list \<Rightarrow> error + nat" where
  \<comment> \<open>\<^verbatim>\<open>np.argmin\<close>: the first position of the least entry\<close>
  "argmin xs = (case xs of [] \<Rightarrow> Inl ValueError | x # ys \<Rightarrow> Inr (arg_best (<) 0 x 1 ys))"

definition first_column_size :: "int list list \<Rightarrow> error + nat" where
  \<comment> \<open>\<^verbatim>\<open>population[:, 0].size\<close>: the number of rows; a matrix whose rows are empty has
      no column 0. A matrix without rows does not say how many columns it has: it is
      taken to have some, and \<^verbatim>\<open>find_ga\<close> fails on it at \<^verbatim>\<open>np.argmax\<close> either way.\<close>
  "first_column_size M = (if list_ex (\<lambda>row. row = []) M then Inl IndexError else Inr (length M))"

subsection \<open>What the specification calls feasible\<close>

definition feasible :: "problem \<Rightarrow> int list \<Rightarrow> bool" where
  \<comment> \<open>for every knapsack \<open>i\<close>, \<open>sum_j r[i][j] * x[j] <= b[i]\<close>, the sum taken over the
      integers\<close>
  "feasible pr x = (\<forall>i<knapsacks pr. (\<Sum>j<items pr. r pr ! i ! j * x ! j) \<le> b pr ! i)"

definition well_shaped :: "problem \<Rightarrow> bool" where
  \<comment> \<open>the array shapes \<^verbatim>\<open>Problem.__init__\<close> builds\<close>
  "well_shaped pr \<longleftrightarrow>
     length (r pr) = knapsacks pr \<and> list_all (\<lambda>row. length row = items pr) (r pr) \<and>
     length (b pr) = knapsacks pr \<and> length (p pr) = items pr"

definition within_int64 :: "problem \<Rightarrow> bool" where
  \<comment> \<open>the capacities are 64-bit values, and so is what any selection of items uses of a
      knapsack: the costs of a row, added up in absolute value, stay below \<open>2^63\<close>\<close>
  "within_int64 pr \<longleftrightarrow>
     list_all (\<lambda>row. sum_list (map abs row) < 2 ^ 63) (r pr) \<and>
     list_all (\<lambda>c. - (2 ^ 63) \<le> c \<and> c < 2 ^ 63) (b pr)"

definition nonneg_capacities :: "problem \<Rightarrow> bool" where
  "nonneg_capacities pr \<longleftrightarrow> list_all (\<lambda>c. 0 \<le> c) (b pr)"

definition nonneg_costs :: "problem \<Rightarrow> bool" where
  "nonneg_costs pr \<longleftrightarrow> list_all (list_all (\<lambda>c. 0 \<le> c)) (r pr)"

definition binary :: "int list \<Rightarrow> bool" where
  \<comment> \<open>a chromosome: every entry is 0 or 1\<close>
  "binary S \<longleftrightarrow> list_all (\<lambda>x. x = 0 \<or> x = 1) S"

definition ranking :: "nat \<Rightarrow> nat list \<Rightarrow> bool" where
  \<comment> \<open>what \<^verbatim>\<open>np.argsort\<close> returns on \<open>n\<close> entries: every index below \<open>n\<close>, once\<close>
  "ranking n u \<longleftrightarrow> length u = n \<and> distinct u \<and> list_all (\<lambda>j. j < n) u"

subsection \<open>The repair operators\<close>

text \<open>
  \<^verbatim>\<open>fancy_repair\<close>, drop phase: \<^verbatim>\<open>while np.greater(R, b).any()\<close> reads \<^verbatim>\<open>u[0, j]\<close> and
  counts \<open>j\<close> up with no bound of its own; the read past the end of \<open>u\<close> is numpy's
  IndexError.
\<close>

function drop_phase ::
  "problem \<Rightarrow> nat list \<Rightarrow> int list \<Rightarrow> int list \<Rightarrow> nat \<Rightarrow> error + (int list \<times> int list)" where
  "drop_phase pr u S R j =
     (if any_greater R (b pr) then
        (if j < length u \<and> u ! j < length S then
           (if S ! (u ! j) = 1
            then drop_phase pr u (S[u ! j := 0]) (vsub R (column (r pr) (u ! j))) (Suc j)
            else drop_phase pr u S R (Suc j))
         else Inl IndexError)
      else Inr (S, R))"
  by pat_completeness auto
termination
  by (relation "measure (\<lambda>(pr, u, S, R, j). length u - j)") auto

declare drop_phase.simps [simp del]

text \<open>
  Add phase: \<^verbatim>\<open>for j in range(problem.items - 1, 0, -1)\<close>; the positions are passed as the
  list \<open>rev [1..<items]\<close>.
\<close>

fun add_phase ::
  "problem \<Rightarrow> nat list \<Rightarrow> nat list \<Rightarrow> int list \<Rightarrow> int list \<Rightarrow> error + (int list \<times> int list)" where
  "add_phase pr u [] S R = Inr (S, R)"
| "add_phase pr u (j # js) S R =
     (if j < length u \<and> u ! j < length S then
        (if S ! (u ! j) = 0 \<and> all_less_equal (vadd R (column (r pr) (u ! j))) (b pr)
         then add_phase pr u js (S[u ! j := 1]) (vadd R (column (r pr) (u ! j)))
         else add_phase pr u js S R)
      else Inl IndexError)"

definition sanity_check :: "problem \<Rightarrow> int list \<Rightarrow> bool" where
  \<comment> \<open>\<^verbatim>\<open>for i in range(knapsacks): if np.greater(R, b).any(): raise\<close>; True when it raises\<close>
  "sanity_check pr R \<longleftrightarrow> 0 < knapsacks pr \<and> any_greater R (b pr)"

definition fancy_repair :: "int list \<Rightarrow> int list \<Rightarrow> problem \<Rightarrow> nat list \<Rightarrow> error + int list" where
  "fancy_repair S R pr u =
     (case drop_phase pr u S R 0 of
        Inl e \<Rightarrow> Inl e
      | Inr (S1, R1) \<Rightarrow>
          (case add_phase pr u (rev [1..<items pr]) S1 R1 of
             Inl e \<Rightarrow> Inl e
           | Inr (S2, R2) \<Rightarrow> if sanity_check pr R2 then Inl RestraintViolation else Inr S2))"

definition repair :: "int list \<Rightarrow> problem \<Rightarrow> string \<Rightarrow> nat list \<Rightarrow> error + int list" where
  "repair S pr operator u =
     (let R = usage pr S in
      if operator = ''simple'' then
        (if any_greater R (b pr) then Inr (replicate (length S) 0) else Inr S)
      else if operator = ''fancy'' then fancy_repair S R pr u
      else Inl UnknownOperator)"

subsection \<open>The initial population\<close>

text \<open>
  \<^verbatim>\<open>initialize_pop\<close>, the inner loop for one chromosome. \<open>T\<close> is what is left of the shuffled
  \<^verbatim>\<open>np.arange(items)\<close> and \<open>j\<close> the item popped from its end. After an item is added the
  loop pops the next one with \<^verbatim>\<open>j, T = T[-1], T[:-1]\<close>, which on an empty \<open>T\<close> is an
  IndexError. The list \<open>P\<close> of the source is only appended to and is left out.
\<close>

function init_while ::
  "problem \<Rightarrow> int list \<Rightarrow> int list \<Rightarrow> nat \<Rightarrow> nat list \<Rightarrow> error + (int list \<times> int list)" where
  "init_while pr S R j T =
     (if j < length S then
        (if S ! j = 0 \<and> all_less_equal (vadd R (column (r pr) j)) (b pr) then
           (if T = [] then Inl IndexError
            else init_while pr (S[j := 1]) (vadd R (column (r pr) j)) (last T) (butlast T))
         else Inr (S, R))
      else Inl IndexError)"
  by pat_completeness auto
termination
  by (relation "measure (\<lambda>(pr, S, R, j, T). length T)") auto

declare init_while.simps [simp del]

definition initialize_row :: "problem \<Rightarrow> nat list \<Rightarrow> error + int list" where
  \<comment> \<open>the body of \<^verbatim>\<open>for k in range(N)\<close>; \<open>T\<close> is the shuffled permutation of row \<open>k\<close>\<close>
  "initialize_row pr T =
     (let S = replicate (items pr) 0; R = usage pr S in
      if T = [] then Inl IndexError
      else (case init_while pr S R (last T) (butlast T) of
              Inl e \<Rightarrow> Inl e
            | Inr (S', R') \<Rightarrow> if sanity_check pr R' then Inl RestraintViolation else Inr S'))"

fun initialize_rows :: "problem \<Rightarrow> nat list list \<Rightarrow> error + int list list" where
  "initialize_rows pr [] = Inr []"
| "initialize_rows pr (T # Ts) =
     (case initialize_row pr T of
        Inl e \<Rightarrow> Inl e
      | Inr S \<Rightarrow> (case initialize_rows pr Ts of Inl e \<Rightarrow> Inl e | Inr rows \<Rightarrow> Inr (S # rows)))"

definition initialize_pop :: "nat \<Rightarrow> problem \<Rightarrow> (nat \<Rightarrow> nat list) \<Rightarrow> error + int list list" where
  \<comment> \<open>\<open>shuffled k\<close> is the outcome of \<^verbatim>\<open>np.random.shuffle(T)\<close> for row \<open>k\<close>\<close>
  "initialize_pop N pr shuffled = initialize_rows pr (map shuffled [0..<N])"

definition shuffle_of :: "nat \<Rightarrow> nat list \<Rightarrow> bool" where
  \<comment> \<open>a possible outcome of shuffling \<^verbatim>\<open>np.arange(n)\<close>\<close>
  "shuffle_of n T \<longleftrightarrow> length T = n \<and> distinct T \<and> list_all (\<lambda>j. j < n) T"

subsection \<open>Fitness\<close>

text \<open>
  The population's fitness is kept in an array of floats, which holds the integer sums
  of this model as they are while they are below \<open>2^53\<close>.
\<close>

definition evaluate_pop_fitness :: "int list list \<Rightarrow> problem \<Rightarrow> error + int list" where
  "evaluate_pop_fitness population pr =
     (case first_column_size population of
        Inl e \<Rightarrow> Inl e
      | Inr number_solutions \<Rightarrow> Inr (map (\<lambda>row. dot (p pr) row) population))"

definition evaluate_child_fitness :: "int list \<Rightarrow> problem \<Rightarrow> int" where
  "evaluate_child_fitness child pr = dot (p pr) child"

subsection \<open>Selection, crossover, mutation\<close>

text \<open>
  \<^verbatim>\<open>np.random.choice(a, size, replace=False)\<close> returns the entries of \<open>a\<close> at \<open>size\<close>
  distinct random positions; the positions are the argument \<open>drawn\<close>. A sample larger than
  the pool is a ValueError.
\<close>

definition choice :: "nat list \<Rightarrow> nat \<Rightarrow> nat list \<Rightarrow> error + nat list" where
  "choice a sz drawn = (if length a < sz then Inl ValueError else Inr (map (\<lambda>i. a ! i) drawn))"

definition drawn_from :: "nat \<Rightarrow> nat \<Rightarrow> nat list \<Rightarrow> bool" where
  \<comment> \<open>\<open>sz\<close> distinct positions of a pool of \<open>n\<close> entries\<close>
  "drawn_from n sz drawn \<longleftrightarrow> length drawn = sz \<and> distinct drawn \<and> list_all (\<lambda>i. i < n) drawn"

definition delete_np :: "nat list \<Rightarrow> nat list \<Rightarrow> nat list" where
  \<comment> \<open>\<^verbatim>\<open>np.delete(a, idx)\<close>: \<open>a\<close> without the entries at the positions \<open>idx\<close>\<close>
  "delete_np a idx = map (\<lambda>i. a ! i) (filter (\<lambda>i. i \<notin> set idx) [0..<length a])"

definition tournament_pools ::
  "int list list \<Rightarrow> nat list \<Rightarrow> nat list \<Rightarrow> error + (nat list \<times> nat list)" where
  \<comment> \<open>the two pools \<open>T_1\<close> and \<open>T_2\<close> of \<^verbatim>\<open>binary_tournament_selection\<close>\<close>
  "tournament_pools population drawn1 drawn2 =
     (case first_column_size population of
        Inl e \<Rightarrow> Inl e
      | Inr k \<Rightarrow>
          (let population_pool = [0..<k] in
           case choice population_pool 2 drawn1 of
             Inl e \<Rightarrow> Inl e
           | Inr T_1 \<Rightarrow>
               (case choice (delete_np population_pool T_1) 2 drawn2 of
                  Inl e \<Rightarrow> Inl e
                | Inr T_2 \<Rightarrow> Inr (T_1, T_2))))"

definition take_np :: "int list \<Rightarrow> nat list \<Rightarrow> error + int list" where
  \<comment> \<open>\<^verbatim>\<open>tournament_fitness[T_1]\<close>\<close>
  "take_np xs idx =
     (if list_all (\<lambda>i. i < length xs) idx then Inr (map (\<lambda>i. xs ! i) idx) else Inl IndexError)"

definition winner :: "int list \<Rightarrow> nat list \<Rightarrow> error + nat" where
  \<comment> \<open>\<^verbatim>\<open>T_1[np.argmax(tournament_fitness[T_1])]\<close>\<close>
  "winner tournament_fitness T =
     (case take_np tournament_fitness T of
        Inl e \<Rightarrow> Inl e
      | Inr fs \<Rightarrow> (case argmax fs of Inl e \<Rightarrow> Inl e | Inr i \<Rightarrow> Inr (T ! i)))"

definition binary_tournament_selection ::
  "int list list \<Rightarrow> int list \<Rightarrow> nat list \<Rightarrow> nat list \<Rightarrow> error + (nat \<times> nat)" where
  "binary_tournament_selection population tournament_fitness drawn1 drawn2 =
     (case tournament_pools population drawn1 drawn2 of
        Inl e \<Rightarrow> Inl e
      | Inr (T_1, T_2) \<Rightarrow>
          (case winner tournament_fitness T_1 of
             Inl e \<Rightarrow> Inl e
           | Inr parent_1 \<Rightarrow>
               (case winner tournament_fitness T_2 of
                  Inl e \<Rightarrow> Inl e
                | Inr parent_2 \<Rightarrow> Inr (parent_1, parent_2))))"

definition uniform_crossover :: "int list \<Rightarrow> int list \<Rightarrow> nat list \<Rightarrow> int list" where
  \<comment> \<open>\<open>coins ! i\<close> is the \<^verbatim>\<open>np.random.randint(2)\<close> of bit \<open>i\<close>\<close>
  "uniform_crossover parent_1 parent_2 coins =
     map (\<lambda>i. if coins ! i = 0 then parent_1 ! i else parent_2 ! i) [0..<length parent_1]"

definition mutate :: "int list \<Rightarrow> nat \<Rightarrow> nat \<Rightarrow> error + int list" where
  \<comment> \<open>\<open>mutation\<close> is the coin and \<open>i\<close> the bit position drawn by \<^verbatim>\<open>np.random.choice\<close>,
      which cannot draw from an empty pool\<close>
  "mutate child mutation i =
     (if mutation = 1 then Inr child
      else if child = [] then Inl ValueError
      else if i < length child then Inr (child[i := (if child ! i = 0 then 1 else 0)])
      else Inl IndexError)"

subsection \<open>The utility ranking\<close>

text \<open>
  \<^verbatim>\<open>repair_preprocess\<close>. The dual vector \<open>w\<close> is what \<^verbatim>\<open>linprog\<close> returned (\<^verbatim>\<open>result.x\<close>, one
  entry per knapsack) and is an argument: the solver is not part of the program, and a
  call in which it returns no vector at all is not a run of this function. Floating-point
  numbers are rationals here, without rounding, extended by the values numpy gives a
  division by zero, so the order of two utilities that differ by less than a rounding
  error, or are equal, may be another in numpy. The loop over the knapsacks is
  \<^verbatim>\<open>for i in range(2)\<close>.
\<close>

datatype npfloat = NegInf | Finite rat | PosInf | NaN

fun denom_loop :: "rat list \<Rightarrow> int list list \<Rightarrow> nat list \<Rightarrow> rat list \<Rightarrow> error + rat list" where
  "denom_loop w M [] denom = Inr denom"
| "denom_loop w M (i # ks) denom =
     (if i < length w \<and> i < length M
      then denom_loop w M ks (map2 (+) denom (map (\<lambda>c. w ! i * of_int c) (M ! i)))
      else Inl IndexError)"

definition utility :: "int \<Rightarrow> rat \<Rightarrow> npfloat" where
  \<comment> \<open>one entry of \<^verbatim>\<open>np.multiply(p, 1 / denom)\<close>: \<open>1 / 0\<close> is \<open>inf\<close> and \<open>0 * inf\<close> is \<open>nan\<close>\<close>
  "utility profit d =
     (if d = 0 then (if profit > 0 then PosInf else if profit < 0 then NegInf else NaN)
      else Finite (of_int profit * (1 / d)))"

fun sort_rank :: "npfloat \<Rightarrow> nat" where
  "sort_rank NegInf = 0"
| "sort_rank (Finite x) = 1"
| "sort_rank PosInf = 2"
| "sort_rank NaN = 3"

fun npfloat_le :: "npfloat \<Rightarrow> npfloat \<Rightarrow> bool" where
  \<comment> \<open>the order \<^verbatim>\<open>np.argsort\<close> sorts by: \<open>nan\<close> last\<close>
  "npfloat_le (Finite x) (Finite y) = (x \<le> y)"
| "npfloat_le x y = (sort_rank x \<le> sort_rank y)"

primrec insert_index :: "npfloat list \<Rightarrow> nat \<Rightarrow> nat list \<Rightarrow> nat list" where
  "insert_index us i [] = [i]"
| "insert_index us i (k # ks) =
     (if npfloat_le (us ! i) (us ! k) then i # k # ks else k # insert_index us i ks)"

definition argsort :: "npfloat list \<Rightarrow> nat list" where
  \<comment> \<open>\<^verbatim>\<open>np.argsort\<close>; equal entries keep their order here, numpy leaves their order open\<close>
  "argsort us = foldr (insert_index us) [0..<length us] []"

definition repair_preprocess :: "problem \<Rightarrow> rat list \<Rightarrow> error + nat list" where
  "repair_preprocess pr w =
     (case denom_loop w (r pr) [0..<2] (replicate (items pr) 0) of
        Inl e \<Rightarrow> Inl e
      | Inr denom \<Rightarrow> Inr (argsort (map2 utility (p pr) denom)))"

subsection \<open>The optimizer\<close>

text \<open>
  What one pass of selection, crossover and mutation draws. A generation draws once and
  then once more for every child that is already in the population.
\<close>

record attempt =
  first_pool :: "nat list"
  second_pool :: "nat list"
  crossover_coins :: "nat list"
  mutation_coin :: nat
  mutation_bit :: nat

record ga_state =
  population :: "int list list"
  fitness :: "int list"
  fitness_record :: "int list"
  solution_record :: "int list list"

definition breed ::
  "problem \<Rightarrow> string \<Rightarrow> nat list \<Rightarrow> int list list \<Rightarrow> int list \<Rightarrow> attempt \<Rightarrow> error + int list" where
  \<comment> \<open>select two parents, cross them over, mutate and repair the child\<close>
  "breed pr operator u pop fit a =
     (case binary_tournament_selection pop fit (first_pool a) (second_pool a) of
        Inl e \<Rightarrow> Inl e
      | Inr (parent_1, parent_2) \<Rightarrow>
          if parent_1 < length pop \<and> parent_2 < length pop then
            (case mutate (uniform_crossover (pop ! parent_1) (pop ! parent_2) (crossover_coins a))
                    (mutation_coin a) (mutation_bit a) of
               Inl e \<Rightarrow> Inl e
             | Inr C \<Rightarrow> repair C pr operator u)
          else Inl IndexError)"

text \<open>
  \<^verbatim>\<open>while C.tolist() in population.tolist()\<close> has no bound. The loop runs on the attempts it
  is given; \<open>None\<close> says that they ran out with the child still a duplicate.
\<close>

fun regenerate ::
  "problem \<Rightarrow> string \<Rightarrow> nat list \<Rightarrow> int list list \<Rightarrow> int list \<Rightarrow> attempt list \<Rightarrow> int list \<Rightarrow>
   (error + int list) option" where
  "regenerate pr operator u pop fit [] C = (if C \<in> set pop then None else Some (Inr C))"
| "regenerate pr operator u pop fit (a # retries) C =
     (if C \<in> set pop then
        (case breed pr operator u pop fit a of
           Inl e \<Rightarrow> Some (Inl e)
         | Inr C' \<Rightarrow> regenerate pr operator u pop fit retries C')
      else Some (Inr C))"

definition replace_worst :: "problem \<Rightarrow> nat \<Rightarrow> int list \<Rightarrow> ga_state \<Rightarrow> error + ga_state" where
  \<comment> \<open>the end of the loop body: the child \<open>C\<close> against the worst row and against the record\<close>
  "replace_worst pr t C st =
     (let C_fitness = evaluate_child_fitness C pr in
      case argmin (fitness st) of
        Inl e \<Rightarrow> Inl e
      | Inr S_prime \<Rightarrow>
          Inr (st\<lparr>population :=
                    (if C_fitness > fitness st ! S_prime then (population st)[S_prime := C]
                     else population st),
                  fitness_record :=
                    (if C_fitness > fitness_record st ! t then (fitness_record st)[t := C_fitness]
                     else fitness_record st),
                  solution_record :=
                    (if C_fitness > fitness_record st ! t then (solution_record st)[t := C]
                     else solution_record st)\<rparr>))"

definition carry_over :: "nat \<Rightarrow> ga_state \<Rightarrow> ga_state" where
  \<comment> \<open>\<^verbatim>\<open>fitness_record[t, 0] = fitness_record[t - 1, 0]\<close> and the same for the solution\<close>
  "carry_over t st =
     st\<lparr>fitness_record := (fitness_record st)[t := fitness_record st ! (t - 1)],
        solution_record := (solution_record st)[t := solution_record st ! (t - 1)]\<rparr>"

definition generation ::
  "problem \<Rightarrow> string \<Rightarrow> nat list \<Rightarrow> nat \<Rightarrow> attempt list \<Rightarrow> ga_state \<Rightarrow> (error + ga_state) option" where
  \<comment> \<open>the body of \<^verbatim>\<open>while t < total_iterations\<close>\<close>
  "generation pr operator u t attempts st =
     (if t < length (fitness_record st) then
        (case attempts of
           [] \<Rightarrow> None
         | a # retries \<Rightarrow>
             (case breed pr operator u (population st) (fitness st) a of
                Inl e \<Rightarrow> Some (Inl e)
              | Inr C0 \<Rightarrow>
                  (case regenerate pr operator u (population st) (fitness st) retries C0 of
                     None \<Rightarrow> None
                   | Some (Inl e) \<Rightarrow> Some (Inl e)
                   | Some (Inr C) \<Rightarrow> Some (replace_worst pr t C (carry_over t st)))))
      else Some (Inl IndexError))"

text \<open>
  The loop, run until \<open>t\<close> reaches \<open>stop\<close>: \<^verbatim>\<open>find_ga\<close> stops at \<^verbatim>\<open>total_iterations\<close>, and a smaller
  \<open>stop\<close> gives the state the run is in at the end of generation \<open>stop - 1\<close>.
\<close>

function ga_loop ::
  "problem \<Rightarrow> string \<Rightarrow> nat list \<Rightarrow> (nat \<Rightarrow> attempt list) \<Rightarrow> nat \<Rightarrow> nat \<Rightarrow> ga_state \<Rightarrow>
   (error + ga_state) option" where
  "ga_loop pr operator u draws stop t st =
     (if t < stop then
        (case generation pr operator u t (draws t) st of
           None \<Rightarrow> None
         | Some (Inl e) \<Rightarrow> Some (Inl e)
         | Some (Inr st') \<Rightarrow> ga_loop pr operator u draws stop (Suc t) st')
      else Some (Inr st))"
  by pat_completeness auto
termination
  by (relation "measure (\<lambda>(pr, operator, u, draws, stop, t, st). stop - t)") auto

declare ga_loop.simps [simp del]

definition ga_start ::
  "nat \<Rightarrow> nat \<Rightarrow> problem \<Rightarrow> (nat \<Rightarrow> nat list) \<Rightarrow> rat list \<Rightarrow> error + (nat list \<times> ga_state)" where
  \<comment> \<open>\<^verbatim>\<open>find_ga\<close> up to the loop: population, fitness, ranking and generation 0 of the records\<close>
  "ga_start k total_iterations pr shuffled w =
     (case initialize_pop k pr shuffled of
        Inl e \<Rightarrow> Inl e
      | Inr pop \<Rightarrow>
          (case evaluate_pop_fitness pop pr of
             Inl e \<Rightarrow> Inl e
           | Inr fit \<Rightarrow>
               (case repair_preprocess pr w of
                  Inl e \<Rightarrow> Inl e
                | Inr u \<Rightarrow>
                    (case argmax fit of
                       Inl e \<Rightarrow> Inl e
                     | Inr max_fitness_index \<Rightarrow>
                         if total_iterations = 0 then Inl IndexError
                         else Inr (u,
                           \<lparr>population = pop, fitness = fit,
                            fitness_record =
                              (replicate total_iterations 0)[0 := fit ! max_fitness_index],
                            solution_record =
                              (replicate total_iterations (replicate (items pr) 0))
                                [0 := pop ! max_fitness_index]\<rparr>)))))"

definition find_ga_upto ::
  "nat \<Rightarrow> nat \<Rightarrow> problem \<Rightarrow> string \<Rightarrow> (nat \<Rightarrow> nat list) \<Rightarrow> rat list \<Rightarrow> (nat \<Rightarrow> attempt list) \<Rightarrow>
   nat \<Rightarrow> (error + ga_state) option" where
  "find_ga_upto k total_iterations pr repair_operator shuffled w draws stop =
     (case ga_start k total_iterations pr shuffled w of
        Inl e \<Rightarrow> Some (Inl e)
      | Inr (u, st) \<Rightarrow> ga_loop pr repair_operator u draws stop 1 st)"

definition find_ga ::
  "nat \<Rightarrow> nat \<Rightarrow> problem \<Rightarrow> string \<Rightarrow> (nat \<Rightarrow> nat list) \<Rightarrow> rat list \<Rightarrow> (nat \<Rightarrow> attempt list) \<Rightarrow>
   (error + int list \<times> int list list) option" where
  \<comment> \<open>the time record, a wall-clock reading, is left out of the result\<close>
  "find_ga k total_iterations pr repair_operator shuffled w draws =
     (case find_ga_upto k total_iterations pr repair_operator shuffled w draws total_iterations of
        None \<Rightarrow> None
      | Some (Inl e) \<Rightarrow> Some (Inl e)
      | Some (Inr st) \<Rightarrow> Some (Inr (fitness_record st, solution_record st)))"

subsection \<open>Instances\<close>

definition scenario :: problem where
  \<comment> \<open>four items, one knapsack, tightness ratio 0.5\<close>
  "scenario = \<lparr>items = 4, knapsacks = 1, r = [[500, 300, 200, 400]], b = [700],
     p = [50, 80, 30, 60]\<rparr>"

definition small :: problem where
  \<comment> \<open>three items, two knapsacks that hold any two of them\<close>
  "small = \<lparr>items = 3, knapsacks = 2, r = [[1, 1, 1], [1, 1, 1]], b = [2, 2], p = [1, 2, 4]\<rparr>"

definition small_shuffled :: "nat \<Rightarrow> nat list" where
  "small_shuffled k = (if even k then [2, 1, 0] else [1, 2, 0])"

definition small_draws :: "nat \<Rightarrow> attempt list" where
  \<comment> \<open>generation 1 draws once; the later ones draw a duplicate first and then a new child\<close>
  "small_draws t =
     (if t = 1 then
        [\<lparr>first_pool = [0, 2], second_pool = [0, 1], crossover_coins = [0, 0, 1],
          mutation_coin = 0, mutation_bit = 0\<rparr>]
      else
        [\<lparr>first_pool = [0, 2], second_pool = [0, 1], crossover_coins = [0, 0, 0],
          mutation_coin = 1, mutation_bit = 0\<rparr>,
         \<lparr>first_pool = [0, 2], second_pool = [0, 1], crossover_coins = [1, 1, 1],
          mutation_coin = 0, mutation_bit = 0\<rparr>])"

definition slack :: problem where
  \<comment> \<open>the items ranked \<open>[0, 1, 2]\<close> by profit over cost; items 0 and 2 fit together\<close>
  "slack = \<lparr>items = 3, knapsacks = 2, r = [[2, 3, 4], [2, 3, 4]], b = [6, 6], p = [1, 3, 8]\<rparr>"

definition free :: problem where
  \<comment> \<open>an all-zero cost matrix, with the capacities and profits \<^verbatim>\<open>Problem.__init__\<close> derives\<close>
  "free = \<lparr>items = 2, knapsacks = 1, r = [[0, 0]], b = [0], p = [0, 0]\<rparr>"

subsection \<open>Invariants of a run\<close>

definition population_ok :: "problem \<Rightarrow> int list list \<Rightarrow> bool" where
  "population_ok pr pop \<longleftrightarrow>
     (\<forall>x\<in>set pop. length x = items pr \<and> binary x \<and> feasible pr x)"

definition nondecreasing_upto :: "nat \<Rightarrow> int list \<Rightarrow> bool" where
  "nondecreasing_upto n fr \<longleftrightarrow> (\<forall>i. 1 \<le> i \<and> i < n \<longrightarrow> fr ! (i - 1) \<le> fr ! i)"

section \<open>Properties\<close>

subsection \<open>Resource usage\<close>

lemma int64_id: "- (2 ^ 63) \<le> x \<Longrightarrow> x < 2 ^ 63 \<Longrightarrow> int64 x = x"
  by (simp add: int64_def signed_take_bit_int_eq_self)

lemma int64_add_right: "int64 (x + int64 y) = int64 (x + y)"
  unfolding int64_def
  by (metis signed_take_bit_add signed_take_bit_signed_take_bit min.idem)

lemma sum64_closed: "sum64 xs = int64 (sum_list xs)"
proof (induction xs)
  case Nil
  show ?case by (simp add: int64_def)
next
  case (Cons x xs)
  then show ?case by (simp add: add64_def int64_add_right)
qed

lemma int64_add_left: "int64 (int64 x + y) = int64 (x + y)"
  using int64_add_right [of y x] by (simp add: add.commute)

lemma int64_sum_mul64:
  "int64 (sum_list (map2 mul64 xs ys)) = int64 (sum_list (map2 (*) xs ys))"
proof (induction xs arbitrary: ys)
  case Nil
  show ?case by simp
next
  case (Cons x xs)
  show ?case
  proof (cases ys)
    case Nil
    then show ?thesis by simp
  next
    case (Cons y ys')
    have "int64 (mul64 x y + sum_list (map2 mul64 xs ys')) =
      int64 (x * y + sum_list (map2 mul64 xs ys'))"
      unfolding mul64_def by (rule int64_add_left)
    also have "\<dots> = int64 (x * y + int64 (sum_list (map2 mul64 xs ys')))"
      by (rule int64_add_right [symmetric])
    also have "\<dots> = int64 (x * y + int64 (sum_list (map2 (*) xs ys')))"
      by (simp only: Cons.IH)
    also have "\<dots> = int64 (x * y + sum_list (map2 (*) xs ys'))"
      by (rule int64_add_right)
    finally show ?thesis using Cons by simp
  qed
qed

lemma dot_closed: "dot xs ys = int64 (sum_list (map2 (*) xs ys))"
  by (simp add: dot_def sum64_closed int64_sum_mul64)

lemma abs_selection_le:
  "binary S \<Longrightarrow> \<bar>sum_list (map2 (*) row S)\<bar> \<le> sum_list (map abs row)"
proof (induction row arbitrary: S)
  case Nil
  show ?case by simp
next
  case (Cons c row)
  show ?case
  proof (cases S)
    case Nil
    have "0 \<le> sum_list (map abs row)"
      by (rule sum_list_nonneg) auto
    with Nil show ?thesis by simp
  next
    case (Cons x S')
    with Cons.prems have x: "x = 0 \<or> x = 1" and "binary S'"
      by (simp_all add: binary_def)
    then have "\<bar>sum_list (map2 (*) row S')\<bar> \<le> sum_list (map abs row)"
      using Cons.IH by simp
    with x Cons show ?thesis by auto
  qed
qed

lemma dot_exact:
  assumes "binary S" and "sum_list (map abs row) < 2 ^ 63"
  shows "dot row S = sum_list (map2 (*) row S)"
proof -
  have "\<bar>sum_list (map2 (*) row S)\<bar> < 2 ^ 63"
    using abs_selection_le [OF assms(1), of row] assms(2) by simp
  then show ?thesis
    unfolding dot_closed by (intro int64_id) simp_all
qed

lemma selection_sum_nth:
  "length xs = n \<Longrightarrow> length ys = n \<Longrightarrow>
   sum_list (map2 (*) xs ys) = (\<Sum>j<n. xs ! j * (ys ! j :: int))"
  by (simp add: sum_list_sum_nth atLeast0LessThan)

lemma any_greater_iff:
  "length xs = length ys \<Longrightarrow> any_greater xs ys \<longleftrightarrow> (\<exists>i<length xs. xs ! i > ys ! i)"
  by (auto simp: any_greater_def list_ex_iff set_zip)

lemma all_less_equal_iff:
  "all_less_equal xs ys \<longleftrightarrow> \<not> any_greater xs ys"
  by (auto simp: any_greater_def all_less_equal_def list_ex_iff list_all_iff)

lemma length_usage [simp]: "length (usage pr S) = length (r pr)"
  by (simp add: usage_def)

lemma usage_exact:
  assumes "within_int64 pr" and "binary S" and "i < length (r pr)"
  shows "usage pr S ! i = sum_list (map2 (*) (r pr ! i) S)"
proof -
  have "sum_list (map abs (r pr ! i)) < 2 ^ 63"
    using assms(1,3) by (simp add: within_int64_def list_all_length)
  then show ?thesis
    using assms(2,3) by (simp add: usage_def dot_exact)
qed

lemma usage_nth:
  assumes "well_shaped pr" and "within_int64 pr" and "length S = items pr" and "binary S"
    and "i < knapsacks pr"
  shows "usage pr S ! i = (\<Sum>j<items pr. r pr ! i ! j * S ! j)"
proof -
  from assms have i: "i < length (r pr)" and "length (r pr ! i) = items pr"
    by (simp_all add: well_shaped_def list_all_length)
  then show ?thesis
    using assms by (simp add: usage_exact selection_sum_nth)
qed

lemma feasible_iff:
  assumes "well_shaped pr" and "within_int64 pr" and "length S = items pr" and "binary S"
  shows "feasible pr S \<longleftrightarrow> \<not> any_greater (usage pr S) (b pr)"
proof -
  have len: "length (usage pr S) = length (b pr)" "length (usage pr S) = knapsacks pr"
    using assms by (simp_all add: well_shaped_def)
  have "feasible pr S \<longleftrightarrow> (\<forall>i<knapsacks pr. usage pr S ! i \<le> b pr ! i)"
    unfolding feasible_def using usage_nth [OF assms] by simp
  also have "\<dots> \<longleftrightarrow> \<not> any_greater (usage pr S) (b pr)"
    unfolding any_greater_iff [OF len(1)] len(2) using linorder_not_less by blast
  finally show ?thesis .
qed

lemma sum_list_update_int:
  "k < length xs \<Longrightarrow> sum_list (xs[k := (x::int)]) = sum_list xs + x - xs ! k"
  by (induction xs arbitrary: k) (auto split: nat.splits)

lemma selection_sum_update:
  assumes "k < length xs" "length xs = length S"
  shows "sum_list (map2 (*) xs (S[k := v])) =
    sum_list (map2 (*) xs S) + xs ! k * (v - S ! k :: int)"
proof -
  have "map2 (*) xs (S[k := v]) = (map2 (*) xs S)[k := xs ! k * v]"
    using assms by (metis (no_types, lifting) list_update_id map_update zip_update case_prod_conv)
  then show ?thesis using assms
    by (simp add: sum_list_update_int algebra_simps)
qed

lemma binary_update:
  "binary S \<Longrightarrow> v = 0 \<or> v = 1 \<Longrightarrow> binary (S[k := v])"
  by (auto simp: binary_def list_all_iff dest: set_update_subset_insert [THEN subsetD])

lemma usage_update:
  assumes ws: "well_shaped pr" and bd: "within_int64 pr" and len: "length S = items pr"
    and bin: "binary S" and k: "k < items pr" and v: "v = 0 \<or> v = 1"
  shows "usage pr (S[k := v]) =
    map2 (\<lambda>x c. int64 (x + c * (v - S ! k))) (usage pr S) (column (r pr) k)"
proof (rule nth_equalityI)
  show "length (usage pr (S[k := v])) =
    length (map2 (\<lambda>x c. int64 (x + c * (v - S ! k))) (usage pr S) (column (r pr) k))"
    by (simp add: column_def)
next
  fix i assume "i < length (usage pr (S[k := v]))"
  then have i: "i < length (r pr)" by simp
  then have row: "length (r pr ! i) = items pr"
    using ws by (simp add: well_shaped_def list_all_length)
  have bin': "binary (S[k := v])"
    using bin v by (rule binary_update)
  have "usage pr (S[k := v]) ! i = sum_list (map2 (*) (r pr ! i) (S[k := v]))"
    using usage_exact [OF bd bin' i] .
  also have "\<dots> = usage pr S ! i + r pr ! i ! k * (v - S ! k)"
    using usage_exact [OF bd bin i] selection_sum_update [of k "r pr ! i" S v] row len k
    by simp
  finally have eq: "usage pr (S[k := v]) ! i = usage pr S ! i + r pr ! i ! k * (v - S ! k)" .
  have "\<bar>usage pr (S[k := v]) ! i\<bar> < 2 ^ 63"
  proof -
    have "sum_list (map abs (r pr ! i)) < 2 ^ 63"
      using bd i by (simp add: within_int64_def list_all_length)
    then show ?thesis
      using abs_selection_le [OF bin', of "r pr ! i"] usage_exact [OF bd bin' i] by simp
  qed
  then have "int64 (usage pr (S[k := v]) ! i) = usage pr (S[k := v]) ! i"
    by (intro int64_id) simp_all
  with eq show "usage pr (S[k := v]) ! i =
    map2 (\<lambda>x c. int64 (x + c * (v - S ! k))) (usage pr S) (column (r pr) k) ! i"
    using i by (simp add: column_def)
qed

lemma usage_select:
  assumes "well_shaped pr" "within_int64 pr" "length S = items pr" "binary S" "k < items pr"
    "S ! k = 0"
  shows "usage pr (S[k := 1]) = vadd (usage pr S) (column (r pr) k)"
  using usage_update [OF assms(1-5), of 1] assms(6) by (simp add: vadd_def add64_def)

lemma usage_deselect:
  assumes "well_shaped pr" "within_int64 pr" "length S = items pr" "binary S" "k < items pr"
    "S ! k = 1"
  shows "usage pr (S[k := 0]) = vsub (usage pr S) (column (r pr) k)"
  using usage_update [OF assms(1-5), of 0] assms(6) by (simp add: vsub_def sub64_def)

lemma dot_zero: "dot xs (replicate n 0) = 0"
proof -
  have "sum_list (map2 (*) xs (replicate n (0::int))) = 0"
    by (induction xs arbitrary: n) (auto split: nat.splits simp: replicate_Suc [symmetric] simp del: replicate_Suc, (case_tac n; simp)+)
  then show ?thesis
    by (simp add: dot_closed int64_def)
qed

lemma usage_zero:
  "usage pr (replicate n 0) = replicate (length (r pr)) 0"
  by (simp add: usage_def dot_zero map_replicate_const)

lemma zero_feasible:
  assumes "well_shaped pr" and "nonneg_capacities pr"
  shows "\<not> any_greater (usage pr (replicate n 0)) (b pr)"
  using assms
  by (auto simp: usage_zero any_greater_def nonneg_capacities_def well_shaped_def list_ex_iff
      list_all_length set_zip)

lemma scenario_shape: "well_shaped scenario"
  by (simp add: well_shaped_def scenario_def)

lemma small_shape: "well_shaped small"
  by (simp add: well_shaped_def small_def)

subsection \<open>The two phases of the fancy repair\<close>

lemma ranking_set: "ranking n u \<Longrightarrow> set u = {..<n}"
proof -
  assume a: "ranking n u"
  then have "card (set u) = n" "set u \<subseteq> {..<n}"
    by (auto simp: ranking_def distinct_card list_all_iff)
  then show ?thesis
    by (simp add: card_subset_eq)
qed

lemma drop_phase_sound:
  "well_shaped pr \<Longrightarrow> within_int64 pr \<Longrightarrow> length S = items pr \<Longrightarrow> binary S \<Longrightarrow>
   R = usage pr S \<Longrightarrow> drop_phase pr u S R j = Inr (S1, R1) \<Longrightarrow>
    length S1 = items pr \<and> binary S1 \<and> R1 = usage pr S1 \<and> \<not> any_greater R1 (b pr) \<and>
    (\<forall>k<items pr. S1 ! k = S ! k \<or> (S ! k = 1 \<and> S1 ! k = 0))"
proof (induction pr u S R j rule: drop_phase.induct)
  case (1 pr u S R j)
  note ws = "1.prems"(1) and bd = "1.prems"(2) and len = "1.prems"(3) and bin = "1.prems"(4)
    and R = "1.prems"(5) and run = "1.prems"(6)
  show ?case
  proof (cases "any_greater R (b pr)")
    case False
    with run have "S1 = S" "R1 = R"
      by (simp_all add: drop_phase.simps)
    with False len bin R show ?thesis by simp
  next
    case True
    with run have idx: "j < length u" "u ! j < length S"
      by (auto simp: drop_phase.simps split: if_splits)
    show ?thesis
    proof (cases "S ! (u ! j) = 1")
      case sel: True
      have run': "drop_phase pr u (S[u ! j := 0]) (vsub R (column (r pr) (u ! j))) (Suc j) = Inr (S1, R1)"
        using run True idx sel by (simp add: drop_phase.simps)
      have R': "vsub R (column (r pr) (u ! j)) = usage pr (S[u ! j := 0])"
        using ws bd len bin R idx sel by (simp add: usage_deselect)
      have len': "length (S[u ! j := 0]) = items pr"
        using len by simp
      have bin': "binary (S[u ! j := 0])"
        using bin by (simp add: binary_update)
      have ih: "length S1 = items pr \<and> binary S1 \<and> R1 = usage pr S1 \<and> \<not> any_greater R1 (b pr) \<and>
        (\<forall>k<items pr. S1 ! k = (S[u ! j := 0]) ! k \<or> ((S[u ! j := 0]) ! k = 1 \<and> S1 ! k = 0))"
        using "1.IH"(1) [OF True _ sel ws bd len' bin' R' run'] idx by auto
      have "S1 ! k = S ! k \<or> (S ! k = 1 \<and> S1 ! k = 0)" if "k < items pr" for k
      proof (cases "k = u ! j")
        case True
        with ih that sel len show ?thesis by auto
      next
        case False
        with ih that show ?thesis by auto
      qed
      with ih show ?thesis by blast
    next
      case unsel: False
      have run': "drop_phase pr u S R (Suc j) = Inr (S1, R1)"
        using run True idx unsel by (simp add: drop_phase.simps)
      show ?thesis
        using "1.IH"(2) [OF True _ unsel ws bd len bin R run'] idx by blast
    qed
  qed
qed

lemma add_phase_sound:
  "well_shaped pr \<Longrightarrow> within_int64 pr \<Longrightarrow> length S = items pr \<Longrightarrow> binary S \<Longrightarrow>
   R = usage pr S \<Longrightarrow> \<not> any_greater R (b pr) \<Longrightarrow> add_phase pr u js S R = Inr (S2, R2) \<Longrightarrow>
    length S2 = items pr \<and> binary S2 \<and> R2 = usage pr S2 \<and> \<not> any_greater R2 (b pr) \<and>
    (\<forall>k<items pr. S2 ! k = S ! k \<or> (S ! k = 0 \<and> S2 ! k = 1))"
proof (induction js arbitrary: S R)
  case Nil
  then show ?case by auto
next
  case (Cons j js)
  note ws = Cons.prems(1) and bd = Cons.prems(2) and len = Cons.prems(3) and bin = Cons.prems(4)
    and R = Cons.prems(5) and ok = Cons.prems(6) and run = Cons.prems(7)
  from run have idx: "j < length u" "u ! j < length S"
    by (auto split: if_splits)
  show ?case
  proof (cases "S ! (u ! j) = 0 \<and> all_less_equal (vadd R (column (r pr) (u ! j))) (b pr)")
    case True
    have run': "add_phase pr u js (S[u ! j := 1]) (vadd R (column (r pr) (u ! j))) = Inr (S2, R2)"
      using run True idx by simp
    have R': "vadd R (column (r pr) (u ! j)) = usage pr (S[u ! j := 1])"
      using ws bd len bin R idx True by (simp add: usage_select)
    have ok': "\<not> any_greater (vadd R (column (r pr) (u ! j))) (b pr)"
      using True by (simp add: all_less_equal_iff)
    have len': "length (S[u ! j := 1]) = items pr"
      using len by simp
    have bin': "binary (S[u ! j := 1])"
      using bin by (simp add: binary_update)
    have ih: "length S2 = items pr \<and> binary S2 \<and> R2 = usage pr S2 \<and> \<not> any_greater R2 (b pr) \<and>
        (\<forall>k<items pr. S2 ! k = (S[u ! j := 1]) ! k \<or> ((S[u ! j := 1]) ! k = 0 \<and> S2 ! k = 1))"
      using Cons.IH [OF ws bd len' bin' R' ok' run'] by auto
    have "S2 ! k = S ! k \<or> (S ! k = 0 \<and> S2 ! k = 1)" if "k < items pr" for k
    proof (cases "k = u ! j")
      case eq: True
      with ih that True len show ?thesis by auto
    next
      case False
      with ih that show ?thesis by auto
    qed
    with ih show ?thesis by blast
  next
    case False
    have run': "add_phase pr u js S R = Inr (S2, R2)"
      using run False idx by auto
    show ?thesis
      using Cons.IH [OF ws bd len bin R ok run'] .
  qed
qed

lemma add_phase_total:
  "length u = length S \<Longrightarrow> list_all (\<lambda>k. k < length S) u \<Longrightarrow> list_all (\<lambda>j. j < length S) js \<Longrightarrow>
   \<exists>S2 R2. add_phase pr u js S R = Inr (S2, R2)"
  by (induction js arbitrary: S R) (auto simp: list_all_iff)



lemma drop_phase_total:
  "well_shaped pr \<Longrightarrow> within_int64 pr \<Longrightarrow> nonneg_capacities pr \<Longrightarrow> ranking (items pr) u \<Longrightarrow>
   length S = items pr \<Longrightarrow> binary S \<Longrightarrow> R = usage pr S \<Longrightarrow>
   \<forall>i<j. S ! (u ! i) = 0 \<Longrightarrow>
   \<exists>S1 R1. drop_phase pr u S R j = Inr (S1, R1)"
proof (induction pr u S R j rule: drop_phase.induct)
  case (1 pr u S R j)
  note ws = "1.prems"(1) and bd = "1.prems"(2) and nn = "1.prems"(3) and rk = "1.prems"(4)
    and len = "1.prems"(5) and bin = "1.prems"(6) and R = "1.prems"(7) and zs = "1.prems"(8)
  show ?case
  proof (cases "any_greater R (b pr)")
    case False
    then show ?thesis by (simp add: drop_phase.simps)
  next
    case True
    have lu: "length u = items pr" and du: "distinct u" and su: "set u = {..<items pr}"
      using rk ranking_set [OF rk] by (simp_all add: ranking_def)
    have j: "j < length u"
    proof (rule ccontr)
      assume "\<not> j < length u"
      with zs have "\<forall>i<length u. S ! (u ! i) = 0" by simp
      then have "\<forall>k\<in>set u. S ! k = 0" by (auto simp: in_set_conv_nth)
      with su len have "S = replicate (items pr) 0"
        by (auto intro!: nth_equalityI)
      with R have "R = replicate (length (r pr)) 0"
        by (simp add: usage_zero)
      with nn ws have "\<not> any_greater R (b pr)"
        by (auto simp: any_greater_def nonneg_capacities_def well_shaped_def list_ex_iff
            list_all_length set_zip)
      with True show False by simp
    qed
    then have k: "u ! j < length S"
      using su len by (metis lessThan_iff nth_mem)
    show ?thesis
    proof (cases "S ! (u ! j) = 1")
      case sel: True
      have R': "vsub R (column (r pr) (u ! j)) = usage pr (S[u ! j := 0])"
        using ws bd len bin R k sel by (simp add: usage_deselect)
      have bin': "binary (S[u ! j := 0])"
        using bin by (simp add: binary_update)
      have zs': "\<forall>i<Suc j. (S[u ! j := 0]) ! (u ! i) = 0"
        using zs k by (auto simp: nth_list_update less_Suc_eq)
      have "\<exists>S1 R1. drop_phase pr u (S[u ! j := 0]) (vsub R (column (r pr) (u ! j))) (Suc j) = Inr (S1, R1)"
        using "1.IH"(1) [OF True _ sel ws bd nn rk _ bin' R' zs'] j k len by simp
      then show ?thesis
        using True j k sel by (simp add: drop_phase.simps)
    next
      case unsel: False
      have "S ! (u ! j) = 0"
        using bin k unsel by (auto simp: binary_def list_all_iff)
      then have zs': "\<forall>i<Suc j. S ! (u ! i) = 0"
        using zs by (auto simp: less_Suc_eq)
      have "\<exists>S1 R1. drop_phase pr u S R (Suc j) = Inr (S1, R1)"
        using "1.IH"(2) [OF True _ unsel ws bd nn rk len bin R zs'] j k by simp
      then show ?thesis
        using True j k unsel by (simp add: drop_phase.simps)
    qed
  qed
qed

lemma fancy_repair_returns:
  assumes ws: "well_shaped pr" and bd: "within_int64 pr" and len: "length S = items pr"
    and bin: "binary S" and run: "fancy_repair S (usage pr S) pr u = Inr S'"
  shows "length S' = items pr \<and> binary S' \<and> feasible pr S'"
proof -
  from run obtain S1 R1 where d: "drop_phase pr u S (usage pr S) 0 = Inr (S1, R1)"
    by (auto simp: fancy_repair_def split: sum.splits)
  from run d obtain R2 where a: "add_phase pr u (rev [1..<items pr]) S1 R1 = Inr (S', R2)"
    by (auto simp: fancy_repair_def split: sum.splits if_splits)
  from drop_phase_sound [OF ws bd len bin refl d]
  have 1: "length S1 = items pr" "binary S1" "R1 = usage pr S1" "\<not> any_greater R1 (b pr)"
    by auto
  from add_phase_sound [OF ws bd 1 a]
  have 2: "length S' = items pr" "binary S'" "\<not> any_greater (usage pr S') (b pr)" by auto
  then show ?thesis
    by (simp add: feasible_iff [OF ws bd])
qed

lemma binary_zero: "binary (replicate n 0)"
  by (simp add: binary_def list_all_iff)

lemma repair_returns:
  assumes ws: "well_shaped pr" and bd: "within_int64 pr" and nn: "nonneg_capacities pr"
    and len: "length S = items pr" and bin: "binary S"
    and run: "repair S pr operator u = Inr S'"
  shows "length S' = items pr \<and> binary S' \<and> feasible pr S'"
proof (cases "operator = ''simple''")
  case True
  show ?thesis
  proof (cases "any_greater (usage pr S) (b pr)")
    case over: True
    with run True have "S' = replicate (items pr) 0"
      using len by (simp add: repair_def)
    then show ?thesis
      using zero_feasible [OF ws nn] binary_zero by (simp add: feasible_iff [OF ws bd])
  next
    case False
    with run True have "S' = S"
      by (simp add: repair_def)
    with False len bin show ?thesis
      by (simp add: feasible_iff [OF ws bd])
  qed
next
  case False
  with run have "fancy_repair S (usage pr S) pr u = Inr S'"
    by (simp add: repair_def split: if_splits)
  then show ?thesis
    by (rule fancy_repair_returns [OF ws bd len bin])
qed

subsection \<open>The simple repair\<close>

text \<open>
  C7. For a problem whose arrays have the shapes its dimensions give and whose usage
  sums stay within 64 bits, and a binary chromosome with one entry per item: on a
  chromosome that violates some capacity constraint the simple strategy returns the
  all-zero vector, and on one that violates none it returns the chromosome itself.
\<close>

theorem simple_repair_correct:
  assumes "well_shaped pr" and "within_int64 pr" and "length S = items pr" and "binary S"
  shows "repair S pr ''simple'' u = Inr (if feasible pr S then S else replicate (length S) 0)"
  using feasible_iff [OF assms] by (simp add: repair_def)

text \<open>
  The scenario's child \<open>[1, 1, 1, 1]\<close>, of cost 1400 against a capacity of 700.
\<close>

theorem simple_repair_correct_witness:
  "well_shaped scenario \<and> within_int64 scenario \<and>
   length [1, 1, 1, 1 :: int] = items scenario \<and> binary [1, 1, 1, 1] \<and>
   \<not> feasible scenario [1, 1, 1, 1] \<and>
   repair [1, 1, 1, 1] scenario ''simple'' [] = Inr [0, 0, 0, 0]"
proof -
  have bd: "within_int64 scenario"
    by (simp add: within_int64_def scenario_def)
  have l: "length [1, 1, 1, 1 :: int] = items scenario"
    by (simp add: scenario_def)
  have bin: "binary [1, 1, 1, 1]"
    by (simp add: binary_def)
  have nf: "\<not> feasible scenario [1, 1, 1, 1]"
    by (simp add: feasible_def scenario_def lessThan_Suc eval_nat_numeral)
  show ?thesis
    using simple_repair_correct [OF scenario_shape bd l bin, of "[]"] scenario_shape bd l bin nf
    by (simp add: eval_nat_numeral)
qed

text \<open>
  Beyond that bound the sums of the code wrap: two items of cost \<open>2^62\<close> use \<open>-2^63\<close> of a
  knapsack of capacity 0, and the chromosome passes the test of either strategy.
\<close>

lemma repair_wraps:
  "repair [1, 1] \<lparr>items = 2, knapsacks = 1, r = [[2 ^ 62, 2 ^ 62]], b = [0], p = [0, 0]\<rparr>
     ''simple'' [0, 1] = Inr [1, 1] \<and>
   repair [1, 1] \<lparr>items = 2, knapsacks = 1, r = [[2 ^ 62, 2 ^ 62]], b = [0], p = [0, 0]\<rparr>
     ''fancy'' [0, 1] = Inr [1, 1]"
  by code_simp

subsection \<open>The fancy repair\<close>

text \<open>
  C6. For a problem with non-negative capacities whose usage sums stay within 64 bits, a
  ranking \<open>u\<close> that holds every item once and a binary chromosome \<open>S\<close> with its resource
  usage \<open>R = r \<cdot> S\<close>: the drop phase ends without an error on a feasible chromosome; the
  add phase ends too, keeps every selected item and leaves the chromosome feasible; the
  sanity check does not raise and \<^verbatim>\<open>fancy_repair\<close> returns that chromosome.
\<close>

theorem fancy_repair_correct:
  assumes ws: "well_shaped pr" and bd: "within_int64 pr" and nn: "nonneg_capacities pr"
    and rk: "ranking (items pr) u" and len: "length S = items pr" and bin: "binary S"
  shows "\<exists>S1 R1 S2 R2.
    drop_phase pr u S (usage pr S) 0 = Inr (S1, R1) \<and> feasible pr S1 \<and>
    add_phase pr u (rev [1..<items pr]) S1 R1 = Inr (S2, R2) \<and>
    (\<forall>k<items pr. S1 ! k = 1 \<longrightarrow> S2 ! k = 1) \<and> feasible pr S2 \<and>
    \<not> sanity_check pr R2 \<and> fancy_repair S (usage pr S) pr u = Inr S2"
proof -
  obtain S1 R1 where d: "drop_phase pr u S (usage pr S) 0 = Inr (S1, R1)"
    using drop_phase_total [OF ws bd nn rk len bin refl, of 0] by auto
  from drop_phase_sound [OF ws bd len bin refl d]
  have 1: "length S1 = items pr" "binary S1" "R1 = usage pr S1" "\<not> any_greater R1 (b pr)"
    by auto
  have "length u = length S1" "list_all (\<lambda>k. k < length S1) u"
    using rk 1(1) by (simp_all add: ranking_def)
  moreover have "list_all (\<lambda>j. j < length S1) (rev [1..<items pr])"
    using 1(1) by (simp add: list_all_iff)
  ultimately obtain S2 R2 where a: "add_phase pr u (rev [1..<items pr]) S1 R1 = Inr (S2, R2)"
    using add_phase_total by blast
  from add_phase_sound [OF ws bd 1 a]
  have 2: "length S2 = items pr" "binary S2" "R2 = usage pr S2" "\<not> any_greater R2 (b pr)"
    "\<forall>k<items pr. S2 ! k = S1 ! k \<or> (S1 ! k = 0 \<and> S2 ! k = 1)" by auto
  have "feasible pr S1" "feasible pr S2"
    using 1 2 by (simp_all add: feasible_iff [OF ws bd])
  moreover have "\<forall>k<items pr. S1 ! k = 1 \<longrightarrow> S2 ! k = 1"
    using 2(5) by auto
  moreover have "\<not> sanity_check pr R2"
    using 2(4) by (simp add: sanity_check_def)
  moreover from this have "fancy_repair S (usage pr S) pr u = Inr S2"
    using d a by (simp add: fancy_repair_def)
  ultimately show ?thesis
    using d a by blast
qed

lemma slack_fancy:
  "fancy_repair [1, 1, 1] (usage slack [1, 1, 1]) slack [0, 1, 2] = Inr [0, 0, 1]"
  by code_simp

theorem fancy_repair_correct_witness:
  "well_shaped slack \<and> within_int64 slack \<and> nonneg_capacities slack \<and>
   ranking (items slack) [0, 1, 2] \<and>
   length [1, 1, 1 :: int] = items slack \<and> binary [1, 1, 1] \<and>
   fancy_repair [1, 1, 1] (usage slack [1, 1, 1]) slack [0, 1, 2] = Inr [0, 0, 1] \<and>
   feasible slack [0, 0, 1]"
proof -
  have ws: "well_shaped slack"
    by (simp add: well_shaped_def slack_def)
  have bd: "within_int64 slack"
    by (simp add: within_int64_def slack_def)
  have nn: "nonneg_capacities slack"
    by (simp add: nonneg_capacities_def slack_def)
  have rk: "ranking (items slack) [0, 1, 2]"
    by (simp add: ranking_def slack_def)
  have l: "length [1, 1, 1 :: int] = items slack"
    by (simp add: slack_def)
  have bin: "binary [1, 1, 1]"
    by (simp add: binary_def)
  from fancy_repair_correct [OF ws bd nn rk l bin]
  obtain S2 where "fancy_repair [1, 1, 1] (usage slack [1, 1, 1]) slack [0, 1, 2] = Inr S2"
    and "feasible slack S2"
    by blast
  then have "feasible slack [0, 0, 1]"
    unfolding slack_fancy by simp
  with ws bd nn rk l bin slack_fancy show ?thesis
    by blast
qed

subsection \<open>Repairing a feasible chromosome\<close>





subsection \<open>The positions the add phase visits\<close>

text \<open>
  The add phase visits the positions \<open>items - 1, \<dots>, 1\<close> of the ranking. Whatever sits at
  position 0 is never selected by it.
\<close>

lemma add_phase_untouched:
  "\<forall>j\<in>set js. j < length u \<longrightarrow> u ! j \<noteq> k \<Longrightarrow> add_phase pr u js S R = Inr (S', R') \<Longrightarrow>
   S' ! k = S ! k"
proof (induction js arbitrary: S R)
  case Nil
  then show ?case by simp
next
  case (Cons j js)
  from Cons.prems(2) have j: "j < length u" "u ! j < length S"
    by (auto split: if_splits)
  with Cons.prems(1) have ne: "u ! j \<noteq> k" by simp
  show ?case
  proof (cases "S ! (u ! j) = 0 \<and> all_less_equal (vadd R (column (r pr) (u ! j))) (b pr)")
    case True
    with Cons.prems(2) j have
      "add_phase pr u js (S[u ! j := 1]) (vadd R (column (r pr) (u ! j))) = Inr (S', R')"
      by simp
    then have "S' ! k = (S[u ! j := 1]) ! k"
      using Cons.IH Cons.prems(1) by simp
    with ne show ?thesis by simp
  next
    case False
    with Cons.prems(2) j have "add_phase pr u js S R = Inr (S', R')"
      by auto
    then show ?thesis
      using Cons.IH Cons.prems(1) by simp
  qed
qed

lemma add_phase_never_adds_lowest:
  assumes "ranking (items pr) u"
    and "add_phase pr u (rev [1..<items pr]) S R = Inr (S', R')"
  shows "S' ! (u ! 0) = S ! (u ! 0)"
proof -
  have "\<forall>j\<in>set (rev [1..<items pr]). j < length u \<longrightarrow> u ! j \<noteq> u ! 0"
    using assms(1) by (auto simp: ranking_def nth_eq_iff_index_eq)
  then show ?thesis
    using assms(2) by (rule add_phase_untouched)
qed

text \<open>
  C5 at a failing input. With the ranking \<open>[0, 1, 2]\<close> that the preprocessing computes for
  \<open>slack\<close>, the repair of the empty chromosome selects item 2 and stops: item 0, at position
  0 of the ranking, is unselected and fits beside item 2 (a usage of 6 in each knapsack,
  the capacity), and a scan of all three positions selects it.
\<close>

theorem add_phase_skips_lowest_rank:
  "repair_preprocess slack [1, 1] = Inr [0, 1, 2] \<and>
   repair [0, 0, 0] slack ''fancy'' [0, 1, 2] = Inr [0, 0, 1] \<and>
   usage slack [1, 0, 1] = [6, 6] \<and> b slack = [6, 6] \<and>
   add_phase slack [0, 1, 2] (rev [0..<items slack]) [0, 0, 0] (usage slack [0, 0, 0]) =
     Inr ([1, 0, 1], [6, 6])"
proof -
  have "repair_preprocess slack [1, 1] = Inr [0, 1, 2]"
    by code_simp
  moreover have "repair [0, 0, 0] slack ''fancy'' [0, 1, 2] = Inr [0, 0, 1]"
    by code_simp
  moreover have "usage slack [1, 0, 1] = [6, 6]"
    by code_simp
  moreover have "b slack = [6, 6]"
    by (simp add: slack_def)
  moreover have "add_phase slack [0, 1, 2] (rev [0..<items slack]) [0, 0, 0] (usage slack [0, 0, 0]) =
     Inr ([1, 0, 1], [6, 6])"
    by code_simp
  ultimately show ?thesis by blast
qed

subsection \<open>Binary tournament selection\<close>

lemma arg_best_less:
  "bi < i \<Longrightarrow> arg_best better bi bv i xs < i + length xs"
proof (induction xs arbitrary: bi bv i)
  case Nil
  then show ?case by simp
next
  case (Cons x xs)
  have "arg_best better i x (Suc i) xs < Suc i + length xs"
    by (rule Cons.IH) simp
  moreover have "arg_best better bi bv (Suc i) xs < Suc i + length xs"
    by (rule Cons.IH) (use Cons.prems in simp)
  ultimately show ?case by simp
qed

lemma argmax_less: "argmax xs = Inr i \<Longrightarrow> i < length xs"
  using arg_best_less [of 0 1] by (auto simp: argmax_def split: list.splits)

lemma argmin_less: "argmin xs = Inr i \<Longrightarrow> i < length xs"
  using arg_best_less [of 0 1] by (auto simp: argmin_def split: list.splits)

lemma argmax_total: "xs \<noteq> [] \<Longrightarrow> \<exists>i. argmax xs = Inr i"
  by (cases xs) (simp_all add: argmax_def)

lemma choice_arange:
  assumes "drawn_from k sz d" and "sz \<le> k"
  shows "choice [0..<k] sz d = Inr d"
proof -
  have "map (\<lambda>i. [0..<k] ! i) d = d"
    using assms(1) by (auto simp: drawn_from_def list_all_iff intro!: map_idI)
  with assms(2) show ?thesis
    by (simp add: choice_def)
qed

lemma delete_arange: "delete_np [0..<k] d = filter (\<lambda>i. i \<notin> set d) [0..<k]"
proof -
  have "map (\<lambda>i. [0..<k] ! i) (filter (\<lambda>i. i \<notin> set d) [0..<k]) =
    filter (\<lambda>i. i \<notin> set d) [0..<k]"
    by (rule map_idI) auto
  then show ?thesis
    by (simp add: delete_np_def)
qed

lemma length_delete_arange:
  assumes "drawn_from k sz d"
  shows "length (delete_np [0..<k] d) = k - sz"
proof -
  have "distinct (filter (\<lambda>i. i \<in> set d) [0..<k])" by simp
  moreover have "set (filter (\<lambda>i. i \<in> set d) [0..<k]) = set d"
    using assms by (auto simp: drawn_from_def list_all_iff)
  ultimately have "length (filter (\<lambda>i. i \<in> set d) [0..<k]) = card (set d)"
    using distinct_card by metis
  also have "\<dots> = sz"
    using assms by (simp add: drawn_from_def distinct_card)
  finally have "length (filter (\<lambda>i. i \<in> set d) [0..<k]) = sz" .
  moreover have "length (filter (\<lambda>i. i \<in> set d) [0..<k]) + length (filter (\<lambda>i. i \<notin> set d) [0..<k]) = k"
    using sum_length_filter_compl [of "\<lambda>i. i \<in> set d" "[0..<k]"] by simp
  ultimately show ?thesis
    by (simp add: delete_arange)
qed

lemma winner_member:
  assumes "T \<noteq> []" and "list_all (\<lambda>i. i < length fit) T"
  shows "\<exists>i. winner fit T = Inr i \<and> i \<in> set T"
proof -
  have tk: "take_np fit T = Inr (map (\<lambda>i. fit ! i) T)"
    using assms(2) by (simp add: take_np_def)
  from assms(1) obtain i where am: "argmax (map (\<lambda>i. fit ! i) T) = Inr i"
    using argmax_total [of "map (\<lambda>i. fit ! i) T"] by auto
  then have "i < length T"
    using argmax_less by fastforce
  with tk am show ?thesis
    by (simp add: winner_def)
qed

text \<open>
  C9. On a population of at least four rows (of at least one item), for any fitness
  vector with one entry per row and any two draws of two distinct positions, the first
  among all rows and the second among the rows that are left, the pools \<open>T_1\<close> and \<open>T_2\<close>
  are disjoint, each parent comes from its pool, and the two parents differ.
\<close>

theorem tournament_disjoint:
  assumes k: "4 \<le> length pop" and cols: "list_all (\<lambda>row. row \<noteq> []) pop"
    and fit: "length fit = length pop"
    and d1: "drawn_from (length pop) 2 d1" and d2: "drawn_from (length pop - 2) 2 d2"
  shows "\<exists>T_1 T_2 parent_1 parent_2.
    tournament_pools pop d1 d2 = Inr (T_1, T_2) \<and> set T_1 \<inter> set T_2 = {} \<and>
    binary_tournament_selection pop fit d1 d2 = Inr (parent_1, parent_2) \<and>
    parent_1 \<in> set T_1 \<and> parent_2 \<in> set T_2 \<and> parent_1 \<noteq> parent_2"
proof -
  define rest where "rest = delete_np [0..<length pop] d1"
  define T_2 where "T_2 = map (\<lambda>i. rest ! i) d2"
  have fcs: "first_column_size pop = Inr (length pop)"
    using cols by (auto simp: first_column_size_def list_all_iff list_ex_iff)
  have c1: "choice [0..<length pop] 2 d1 = Inr d1"
    using choice_arange [OF d1] k by simp
  have lrest: "length rest = length pop - 2"
    unfolding rest_def by (rule length_delete_arange [OF d1])
  then have c2: "choice rest 2 d2 = Inr T_2"
    using k by (simp add: choice_def T_2_def)
  have pools: "tournament_pools pop d1 d2 = Inr (d1, T_2)"
    using fcs c1 c2 by (simp add: tournament_pools_def rest_def)
  have sub2: "set T_2 \<subseteq> set rest"
    using d2 lrest by (auto simp: T_2_def drawn_from_def list_all_iff)
  have srest: "set rest = {i. i < length pop \<and> i \<notin> set d1}"
    by (auto simp: rest_def delete_arange)
  have disj: "set d1 \<inter> set T_2 = {}"
    using sub2 srest by auto
  have ne: "d1 \<noteq> []" "T_2 \<noteq> []"
    using d1 d2 by (auto simp: drawn_from_def T_2_def)
  have in1: "list_all (\<lambda>i. i < length fit) d1"
    using d1 fit by (simp add: drawn_from_def)
  have in2: "list_all (\<lambda>i. i < length fit) T_2"
    using sub2 srest fit by (auto simp: list_all_iff)
  obtain p1 where w1: "winner fit d1 = Inr p1" "p1 \<in> set d1"
    using winner_member [OF ne(1) in1] by blast
  obtain p2 where w2: "winner fit T_2 = Inr p2" "p2 \<in> set T_2"
    using winner_member [OF ne(2) in2] by blast
  have "binary_tournament_selection pop fit d1 d2 = Inr (p1, p2)"
    using pools w1 w2 by (simp add: binary_tournament_selection_def)
  moreover have "p1 \<noteq> p2"
    using w1(2) w2(2) disj by auto
  ultimately show ?thesis
    using pools disj w1(2) w2(2) by blast
qed

lemma six_selection:
  "binary_tournament_selection [[0], [1], [0], [1], [0], [1]] [10, 60, 20, 50, 30, 40] [4, 1] [3, 0] =
     Inr (1, 5)"
  by code_simp

theorem tournament_disjoint_witness:
  "4 \<le> length [[0], [1], [0], [1], [0], [1 :: int]] \<and>
   list_all (\<lambda>row. row \<noteq> []) [[0], [1], [0], [1], [0], [1 :: int]] \<and>
   length [10, 60, 20, 50, 30, 40 :: int] = length [[0], [1], [0], [1], [0], [1 :: int]] \<and>
   drawn_from (length [[0], [1], [0], [1], [0], [1 :: int]]) 2 [4, 1] \<and>
   drawn_from (length [[0], [1], [0], [1], [0], [1 :: int]] - 2) 2 [3, 0] \<and>
   binary_tournament_selection [[0], [1], [0], [1], [0], [1]] [10, 60, 20, 50, 30, 40] [4, 1] [3, 0] =
     Inr (1, 5) \<and> (1 :: nat) \<noteq> 5"
proof -
  let ?pop = "[[0], [1], [0], [1], [0], [1 :: int]]"
  let ?fit = "[10, 60, 20, 50, 30, 40 :: int]"
  have k: "4 \<le> length ?pop" by simp
  have cols: "list_all (\<lambda>row. row \<noteq> []) ?pop" by simp
  have fit: "length ?fit = length ?pop" by simp
  have d1: "drawn_from (length ?pop) 2 [4, 1]" by (simp add: drawn_from_def)
  have d2: "drawn_from (length ?pop - 2) 2 [3, 0]" by (simp add: drawn_from_def)
  from tournament_disjoint [OF k cols fit d1 d2]
  obtain p1 p2 where "binary_tournament_selection ?pop ?fit [4, 1] [3, 0] = Inr (p1, p2)" "p1 \<noteq> p2"
    by blast
  then have "(1 :: nat) \<noteq> 5"
    unfolding six_selection by simp
  with k cols fit d1 d2 six_selection show ?thesis
    by blast
qed

subsection \<open>The initial population\<close>

lemma init_while_sound:
  "well_shaped pr \<Longrightarrow> within_int64 pr \<Longrightarrow> length S = items pr \<Longrightarrow> binary S \<Longrightarrow>
   R = usage pr S \<Longrightarrow> init_while pr S R j T = Inr (S', R') \<Longrightarrow>
   length S' = items pr \<and> binary S' \<and> R' = usage pr S'"
proof (induction pr S R j T rule: init_while.induct)
  case (1 pr S R j T)
  note ws = "1.prems"(1) and bd = "1.prems"(2) and len = "1.prems"(3) and bin = "1.prems"(4)
    and R = "1.prems"(5) and run = "1.prems"(6)
  from run have j: "j < length S"
    by (auto simp: init_while.simps split: if_splits)
  show ?case
  proof (cases "S ! j = 0 \<and> all_less_equal (vadd R (column (r pr) j)) (b pr)")
    case False
    with run j have "S' = S" "R' = R"
      by (auto simp: init_while.simps)
    with len bin R show ?thesis by simp
  next
    case True
    with run j have T: "T \<noteq> []"
      by (auto simp: init_while.simps split: if_splits)
    with run j True have run':
      "init_while pr (S[j := 1]) (vadd R (column (r pr) j)) (last T) (butlast T) = Inr (S', R')"
      by (simp add: init_while.simps)
    have R': "vadd R (column (r pr) j) = usage pr (S[j := 1])"
      using ws bd len bin R j True by (simp add: usage_select)
    have len': "length (S[j := 1]) = items pr"
      using len by simp
    have bin': "binary (S[j := 1])"
      using bin by (simp add: binary_update)
    show ?thesis
      using "1.IH" [OF j True T ws bd len' bin' R' run'] .
  qed
qed

lemma initialize_row_returns:
  assumes ws: "well_shaped pr" and bd: "within_int64 pr" and run: "initialize_row pr T = Inr S"
  shows "length S = items pr \<and> binary S \<and> feasible pr S"
proof -
  from run obtain R where
    w: "init_while pr (replicate (items pr) 0) (usage pr (replicate (items pr) 0)) (last T) (butlast T)
          = Inr (S, R)" and
    sc: "\<not> sanity_check pr R"
    by (auto simp: initialize_row_def Let_def split: if_splits sum.splits)
  from init_while_sound [OF ws bd _ binary_zero refl w]
  have 1: "length S = items pr" "binary S" "R = usage pr S" by simp_all
  show ?thesis
  proof (cases "0 < knapsacks pr")
    case True
    with sc 1 show ?thesis
      by (simp add: sanity_check_def feasible_iff [OF ws bd])
  next
    case False
    with 1 show ?thesis
      by (simp add: feasible_def)
  qed
qed

lemma initialize_rows_returns:
  "well_shaped pr \<Longrightarrow> within_int64 pr \<Longrightarrow> initialize_rows pr Ts = Inr pop \<Longrightarrow>
   population_ok pr pop"
proof (induction Ts arbitrary: pop)
  case Nil
  then show ?case by (simp add: population_ok_def)
next
  case (Cons T Ts)
  from Cons.prems(3) obtain S rest where
    row: "initialize_row pr T = Inr S" and rows: "initialize_rows pr Ts = Inr rest" and
    pop: "pop = S # rest"
    by (auto split: sum.splits)
  from initialize_row_returns [OF Cons.prems(1,2) row] Cons.IH [OF Cons.prems(1,2) rows] pop
  show ?case
    by (simp add: population_ok_def)
qed

lemma initialize_pop_returns:
  "well_shaped pr \<Longrightarrow> within_int64 pr \<Longrightarrow> initialize_pop N pr shuffled = Inr pop \<Longrightarrow>
   population_ok pr pop"
  unfolding initialize_pop_def by (rule initialize_rows_returns)

text \<open>
  When all the items fit together, every item popped is added, and after the last one
  the loop pops from the empty permutation.
\<close>

lemma selection_sum_mono:
  assumes "list_all (\<lambda>c. 0 \<le> c) row" and "length row = n" and "length S = n" and "length S' = n"
    and "\<forall>k<n. S ! k \<le> S' ! k"
  shows "sum_list (map2 (*) row S) \<le> sum_list (map2 (*) row (S' :: int list))"
proof -
  have "(\<Sum>j<n. row ! j * S ! j) \<le> (\<Sum>j<n. row ! j * S' ! j)"
  proof (rule sum_mono)
    fix j assume "j \<in> {..<n}"
    then show "row ! j * S ! j \<le> row ! j * S' ! j"
      using assms by (auto simp: list_all_length intro!: mult_left_mono)
  qed
  then show ?thesis
    using assms(2-4) by (simp add: selection_sum_nth)
qed

lemma binary_ones: "binary (replicate n 1)"
  by (simp add: binary_def list_all_iff)

lemma usage_le_all:
  assumes ws: "well_shaped pr" and bd: "within_int64 pr" and nc: "nonneg_costs pr"
    and fit: "feasible pr (replicate (items pr) 1)"
    and len: "length S = items pr" and bin: "binary S"
  shows "\<not> any_greater (usage pr S) (b pr)"
proof -
  have lens: "length (usage pr S) = length (b pr)"
    using ws by (simp add: well_shaped_def)
  have "usage pr S ! i \<le> b pr ! i" if i: "i < length (r pr)" for i
  proof -
    have row: "list_all (\<lambda>c. 0 \<le> c) (r pr ! i)" "length (r pr ! i) = items pr"
      using ws nc i by (simp_all add: well_shaped_def nonneg_costs_def list_all_length)
    have "\<forall>k<items pr. S ! k \<le> replicate (items pr) 1 ! k"
      using bin len by (auto simp: binary_def list_all_length)
    then have "sum_list (map2 (*) (r pr ! i) S) \<le>
        sum_list (map2 (*) (r pr ! i) (replicate (items pr) 1))"
      using selection_sum_mono [OF row len] by simp
    then have "usage pr S ! i \<le> usage pr (replicate (items pr) 1) ! i"
      using usage_exact [OF bd bin i] usage_exact [OF bd binary_ones i] by simp
    moreover have "usage pr (replicate (items pr) 1) ! i \<le> b pr ! i"
    proof -
      have l1: "length (usage pr (replicate (items pr) 1)) = length (b pr)"
        using ws by (simp add: well_shaped_def)
      have "\<not> any_greater (usage pr (replicate (items pr) 1)) (b pr)"
        using fit feasible_iff [OF ws bd _ binary_ones, of "items pr"] by simp
      then show ?thesis
        unfolding any_greater_iff [OF l1] using i linorder_not_less by fastforce
    qed
    ultimately show ?thesis by simp
  qed
  then show ?thesis
    unfolding any_greater_iff [OF lens] using linorder_not_less by fastforce
qed

lemma init_while_exhausts:
  "well_shaped pr \<Longrightarrow> within_int64 pr \<Longrightarrow> nonneg_costs pr \<Longrightarrow>
   feasible pr (replicate (items pr) 1) \<Longrightarrow>
   length S = items pr \<Longrightarrow> binary S \<Longrightarrow> R = usage pr S \<Longrightarrow> distinct (j # T) \<Longrightarrow>
   list_all (\<lambda>k. k < items pr \<and> S ! k = 0) (j # T) \<Longrightarrow>
   init_while pr S R j T = Inl IndexError"
proof (induction pr S R j T rule: init_while.induct)
  case (1 pr S R j T)
  note ws = "1.prems"(1) and bd = "1.prems"(2) and nc = "1.prems"(3) and fit = "1.prems"(4)
    and len = "1.prems"(5) and bin = "1.prems"(6) and R = "1.prems"(7) and dist = "1.prems"(8)
    and zs = "1.prems"(9)
  from zs len have j: "j < length S" "S ! j = 0" by simp_all
  have len': "length (S[j := 1]) = items pr" using len by simp
  have bin': "binary (S[j := 1])"
    using bin by (simp add: binary_update)
  have R': "vadd R (column (r pr) j) = usage pr (S[j := 1])"
    using ws bd len bin R j by (simp add: usage_select)
  have fits: "all_less_equal (vadd R (column (r pr) j)) (b pr)"
    unfolding R' all_less_equal_iff by (rule usage_le_all [OF ws bd nc fit len' bin'])
  show ?case
  proof (cases "T = []")
    case True
    with j fits show ?thesis
      by (simp add: init_while.simps)
  next
    case False
    then have T: "T = butlast T @ [last T]" by simp
    have dist': "distinct (last T # butlast T)"
      using dist T by (metis distinct.simps(2) distinct1_rotate rotate1.simps(2))
    have "\<forall>k\<in>set T. k \<noteq> j \<and> k < items pr \<and> S ! k = 0"
      using dist zs by (auto simp: list_all_iff)
    moreover have "set (last T # butlast T) = set T"
      using T by (metis list.set(2) rotate1.simps(2) set_rotate1)
    ultimately have zs': "list_all (\<lambda>k. k < items pr \<and> (S[j := 1]) ! k = 0) (last T # butlast T)"
      unfolding list_all_iff by auto
    have "init_while pr (S[j := 1]) (vadd R (column (r pr) j)) (last T) (butlast T) = Inl IndexError"
      using "1.IH" [OF j(1) _ False ws bd nc fit len' bin' R' dist' zs'] j fits by simp
    with j fits False show ?thesis
      by (simp add: init_while.simps)
  qed
qed

lemma initialize_pop_exhausts:
  assumes ws: "well_shaped pr" and bd: "within_int64 pr" and nc: "nonneg_costs pr"
    and fit: "feasible pr (replicate (items pr) 1)"
    and n: "0 < items pr" and N: "0 < N" and sh: "shuffle_of (items pr) (shuffled 0)"
  shows "initialize_pop N pr shuffled = Inl IndexError"
proof -
  let ?T = "shuffled 0"
  have "?T \<noteq> []"
    using sh n by (auto simp: shuffle_of_def)
  then have T: "?T \<noteq> []" "?T = butlast ?T @ [last ?T]"
    by simp_all
  have dist: "distinct (last ?T # butlast ?T)"
    using sh T(2) by (metis shuffle_of_def distinct1_rotate rotate1.simps(2))
  have "set (last ?T # butlast ?T) = set ?T"
    using T(2) by (metis list.set(2) rotate1.simps(2) set_rotate1)
  then have zs: "list_all (\<lambda>k. k < items pr \<and> replicate (items pr) (0::int) ! k = 0)
      (last ?T # butlast ?T)"
    using sh unfolding list_all_iff shuffle_of_def by auto
  have "init_while pr (replicate (items pr) 0) (usage pr (replicate (items pr) 0))
      (last ?T) (butlast ?T) = Inl IndexError"
    using init_while_exhausts [OF ws bd nc fit _ binary_zero refl dist zs] by simp
  then have "initialize_row pr ?T = Inl IndexError"
    using T(1) by (simp add: initialize_row_def Let_def)
  moreover have "map shuffled [0..<N] = ?T # map shuffled [1..<N]"
    using N by (simp add: upt_conv_Cons)
  ultimately show ?thesis
    by (simp add: initialize_pop_def)
qed

text \<open>
  C10 at a failing input: on the all-zero cost matrix \<open>free\<close> the initializer raises an
  IndexError, under either order of the two items.
\<close>

theorem initialize_pop_all_fit:
  "initialize_pop 1 free (\<lambda>k. [0, 1]) = Inl IndexError \<and>
   initialize_pop 1 free (\<lambda>k. [1, 0]) = Inl IndexError"
  by code_simp

subsection \<open>The utility ranking\<close>

text \<open>
  The denominator of the utility is summed over the first two knapsacks: the dual price
  of any further knapsack has no influence on the ranking.
\<close>

lemma utility_two_terms:
  assumes "length w = length w'" and "w ! 0 = w' ! 0" and "w ! 1 = w' ! 1"
  shows "repair_preprocess pr w = repair_preprocess pr w'"
proof -
  have "[0..<2] = [0, 1]" by (simp add: upt_rec)
  then show ?thesis
    using assms by (simp add: repair_preprocess_def)
qed

text \<open>
  C4 at a failing input: with one knapsack, as in the scenario, the second round of the
  loop reads \<open>w[1]\<close> past the end of the dual vector, whatever its entry is.
\<close>

theorem utility_one_knapsack:
  "repair_preprocess scenario [w0] = Inl IndexError"
proof -
  have "[0..<2] = [0, 1]" by (simp add: upt_rec)
  then show ?thesis
    by (simp add: repair_preprocess_def scenario_def)
qed

subsection \<open>One generation\<close>

lemma length_uniform_crossover [simp]:
  "length (uniform_crossover x y coins) = length x"
  by (simp add: uniform_crossover_def)

lemma mutate_length: "mutate c m i = Inr c' \<Longrightarrow> length c' = length c"
  by (auto simp: mutate_def split: if_splits)

lemma binary_uniform_crossover:
  assumes "binary x" and "binary y" and "length y = length x"
  shows "binary (uniform_crossover x y coins)"
  using assms by (auto simp: uniform_crossover_def binary_def list_all_length)

lemma mutate_binary: "mutate c m i = Inr c' \<Longrightarrow> binary c \<Longrightarrow> binary c'"
  by (auto simp: mutate_def binary_update split: if_splits)

lemma breed_returns:
  assumes ws: "well_shaped pr" and bd: "within_int64 pr" and nn: "nonneg_capacities pr"
    and rows: "\<forall>x\<in>set pop. length x = items pr \<and> binary x"
    and run: "breed pr operator u pop fit a = Inr C"
  shows "length C = items pr \<and> binary C \<and> feasible pr C"
proof -
  from run obtain p1 p2 C1 where
    par: "p1 < length pop" "p2 < length pop" and
    mut: "mutate (uniform_crossover (pop ! p1) (pop ! p2) (crossover_coins a))
            (mutation_coin a) (mutation_bit a) = Inr C1" and
    rep: "repair C1 pr operator u = Inr C"
    by (auto simp: breed_def split: sum.splits prod.splits if_splits)
  have p1: "length (pop ! p1) = items pr" "binary (pop ! p1)"
    and p2: "length (pop ! p2) = items pr" "binary (pop ! p2)"
    using rows par by simp_all
  have "binary (uniform_crossover (pop ! p1) (pop ! p2) (crossover_coins a))"
    using p1 p2 by (simp add: binary_uniform_crossover)
  then have "length C1 = items pr" "binary C1"
    using mutate_length [OF mut] mutate_binary [OF mut] p1(1) by simp_all
  then show ?thesis
    using repair_returns [OF ws bd nn _ _ rep] by simp
qed

lemma regenerate_returns:
  "regenerate pr operator u pop fit retries C0 = Some (Inr C) \<Longrightarrow>
   C \<notin> set pop \<and> (C = C0 \<or> (\<exists>a\<in>set retries. breed pr operator u pop fit a = Inr C))"
  by (induction retries arbitrary: C0) (auto split: if_splits sum.splits)

lemma generation_returns:
  assumes "generation pr operator u t attempts st = Some (Inr st')"
  shows "t < length (fitness_record st) \<and>
    (\<exists>a C. a \<in> set attempts \<and> breed pr operator u (population st) (fitness st) a = Inr C \<and>
       C \<notin> set (population st) \<and> replace_worst pr t C (carry_over t st) = Inr st')"
proof -
  from assms have t: "t < length (fitness_record st)"
    by (simp add: generation_def split: if_splits)
  from assms t obtain a retries where att: "attempts = a # retries"
    by (cases attempts) (simp_all add: generation_def)
  from assms t att obtain C0 where b0: "breed pr operator u (population st) (fitness st) a = Inr C0"
    by (auto simp: generation_def split: sum.splits)
  from assms t att b0 obtain C where
    reg: "regenerate pr operator u (population st) (fitness st) retries C0 = Some (Inr C)" and
    rw: "replace_worst pr t C (carry_over t st) = Inr st'"
    by (auto simp: generation_def split: option.splits sum.splits)
  from regenerate_returns [OF reg] b0 att rw t show ?thesis
    by auto
qed

lemma replace_worst_population:
  assumes "replace_worst pr t C st = Inr st'"
  shows "set (population st') \<subseteq> insert C (set (population st))"
  using assms
  by (auto simp: replace_worst_def Let_def split: sum.splits if_splits
      dest: set_update_subset_insert [THEN subsetD])

lemma replace_worst_records:
  assumes "replace_worst pr t C st = Inr st'" and "t < length (fitness_record st)"
  shows "length (fitness_record st') = length (fitness_record st) \<and>
    (\<forall>i. i \<noteq> t \<longrightarrow> fitness_record st' ! i = fitness_record st ! i) \<and>
    fitness_record st ! t \<le> fitness_record st' ! t \<and> fitness st' = fitness st"
  using assms
  by (auto simp: replace_worst_def Let_def split: sum.splits if_splits)

lemma carry_over_simps [simp]:
  "population (carry_over t st) = population st"
  "fitness (carry_over t st) = fitness st"
  "fitness_record (carry_over t st) = (fitness_record st)[t := fitness_record st ! (t - 1)]"
  by (simp_all add: carry_over_def)

lemma generation_population_ok:
  assumes ws: "well_shaped pr" and bd: "within_int64 pr" and nn: "nonneg_capacities pr"
    and ok: "population_ok pr (population st)"
    and run: "generation pr operator u t attempts st = Some (Inr st')"
  shows "population_ok pr (population st')"
proof -
  from generation_returns [OF run] obtain a C where
    br: "breed pr operator u (population st) (fitness st) a = Inr C" and
    rw: "replace_worst pr t C (carry_over t st) = Inr st'"
    by blast
  have "length C = items pr \<and> binary C \<and> feasible pr C"
    using breed_returns [OF ws bd nn _ br] ok by (simp add: population_ok_def)
  moreover have "set (population st') \<subseteq> insert C (set (population st))"
    using replace_worst_population [OF rw] by simp
  ultimately show ?thesis
    using ok by (auto simp: population_ok_def)
qed

lemma generation_record:
  assumes run: "generation pr operator u t attempts st = Some (Inr st')"
  shows "length (fitness_record st') = length (fitness_record st) \<and>
    (\<forall>i. i \<noteq> t \<longrightarrow> fitness_record st' ! i = fitness_record st ! i) \<and>
    fitness_record st ! (t - 1) \<le> fitness_record st' ! t \<and> fitness st' = fitness st"
proof -
  from generation_returns [OF run] obtain C where
    t: "t < length (fitness_record st)" and
    rw: "replace_worst pr t C (carry_over t st) = Inr st'"
    by blast
  from replace_worst_records [OF rw] t show ?thesis
    by (auto simp: nth_list_update)
qed

lemma generation_keeps_fitness:
  "generation pr operator u t attempts st = Some (Inr st') \<Longrightarrow> fitness st' = fitness st"
  using generation_record by blast

subsection \<open>The run\<close>

lemma ga_loop_population_ok:
  "well_shaped pr \<Longrightarrow> within_int64 pr \<Longrightarrow> nonneg_capacities pr \<Longrightarrow>
   population_ok pr (population st) \<Longrightarrow>
   ga_loop pr operator u draws stop t st = Some (Inr st') \<Longrightarrow>
   population_ok pr (population st')"
proof (induction pr operator u draws stop t st rule: ga_loop.induct)
  case (1 pr operator u draws stop t st)
  show ?case
  proof (cases "t < stop")
    case False
    with "1.prems" show ?thesis
      by (simp add: ga_loop.simps)
  next
    case True
    with "1.prems"(5) obtain st1 where
      g: "generation pr operator u t (draws t) st = Some (Inr st1)" and
      l: "ga_loop pr operator u draws stop (Suc t) st1 = Some (Inr st')"
      by (auto simp: ga_loop.simps split: option.splits sum.splits)
    have "population_ok pr (population st1)"
      using generation_population_ok [OF "1.prems"(1,2,3,4) g] .
    then show ?thesis
      using "1.IH" [OF True g refl "1.prems"(1,2,3) _ l] by simp
  qed
qed

lemma ga_loop_record:
  "1 \<le> t \<Longrightarrow> nondecreasing_upto t (fitness_record st) \<Longrightarrow>
   ga_loop pr operator u draws stop t st = Some (Inr st') \<Longrightarrow>
   nondecreasing_upto stop (fitness_record st') \<and>
   length (fitness_record st') = length (fitness_record st) \<and> fitness st' = fitness st"
proof (induction pr operator u draws stop t st rule: ga_loop.induct)
  case (1 pr operator u draws stop t st)
  show ?case
  proof (cases "t < stop")
    case False
    with "1.prems" show ?thesis
      by (auto simp: ga_loop.simps nondecreasing_upto_def)
  next
    case True
    with "1.prems"(3) obtain st1 where
      g: "generation pr operator u t (draws t) st = Some (Inr st1)" and
      l: "ga_loop pr operator u draws stop (Suc t) st1 = Some (Inr st')"
      by (auto simp: ga_loop.simps split: option.splits sum.splits)
    note rec = generation_record [OF g]
    have "nondecreasing_upto (Suc t) (fitness_record st1)"
      unfolding nondecreasing_upto_def
    proof (intro allI impI)
      fix i assume i: "1 \<le> i \<and> i < Suc t"
      show "fitness_record st1 ! (i - 1) \<le> fitness_record st1 ! i"
      proof (cases "i = t")
        case True
        with rec "1.prems"(1) show ?thesis by auto
      next
        case False
        with i have "i < t" by simp
        with rec "1.prems"(2) i show ?thesis
          by (auto simp: nondecreasing_upto_def)
      qed
    qed
    then show ?thesis
      using "1.IH" [OF True g refl _ _ l] rec by simp
  qed
qed

lemma ga_start_returns:
  assumes "ga_start k total_iterations pr shuffled w = Inr (u, st)"
  shows "initialize_pop k pr shuffled = Inr (population st) \<and>
    length (fitness_record st) = total_iterations"
  using assms
  by (auto simp: ga_start_def split: sum.splits if_splits)

lemma ga_loop_split:
  "t \<le> mid \<Longrightarrow> mid \<le> stop \<Longrightarrow>
   ga_loop pr operator u draws stop t st =
     (case ga_loop pr operator u draws mid t st of
        None \<Rightarrow> None
      | Some (Inl e) \<Rightarrow> Some (Inl e)
      | Some (Inr st') \<Rightarrow> ga_loop pr operator u draws stop mid st')"
proof (induction pr operator u draws mid t st rule: ga_loop.induct)
  case (1 pr operator u draws mid t st)
  show ?case
  proof (cases "t < mid")
    case False
    with "1.prems" have "t = mid" by simp
    then show ?thesis
      by (simp add: ga_loop.simps [of _ _ _ _ mid mid])
  next
    case True
    then have ts: "t < stop" using "1.prems" by simp
    show ?thesis
    proof (cases "generation pr operator u t (draws t) st")
      case None
      with True ts show ?thesis
        by (simp add: ga_loop.simps [of _ _ _ _ _ t])
    next
      case (Some res)
      show ?thesis
      proof (cases res)
        case (Inl e)
        with Some True ts show ?thesis
          by (simp add: ga_loop.simps [of _ _ _ _ _ t])
      next
        case (Inr st1)
        have "ga_loop pr operator u draws stop (Suc t) st1 =
          (case ga_loop pr operator u draws mid (Suc t) st1 of
             None \<Rightarrow> None
           | Some (Inl e) \<Rightarrow> Some (Inl e)
           | Some (Inr st') \<Rightarrow> ga_loop pr operator u draws stop mid st')"
          using "1.IH" [OF True _ refl] Some Inr True "1.prems" by simp
        with Some Inr True ts show ?thesis
          by (simp add: ga_loop.simps [of _ _ _ _ _ t])
      qed
    qed
  qed
qed

lemma run_passes_through:
  assumes run: "find_ga k total_iterations pr operator shuffled w draws = Some (Inr res)"
    and stop: "stop \<le> total_iterations"
  shows "\<exists>st. find_ga_upto k total_iterations pr operator shuffled w draws stop = Some (Inr st)"
proof -
  from run obtain u st0 st1 where
    start: "ga_start k total_iterations pr shuffled w = Inr (u, st0)" and
    loop: "ga_loop pr operator u draws total_iterations 1 st0 = Some (Inr st1)"
    by (auto simp: find_ga_def find_ga_upto_def split: option.splits sum.splits)
  show ?thesis
  proof (cases "1 \<le> stop")
    case True
    from ga_loop_split [OF True stop, of pr operator u draws st0] loop
    obtain st where "ga_loop pr operator u draws stop 1 st0 = Some (Inr st)"
      by (auto split: option.splits sum.splits)
    with start show ?thesis
      by (simp add: find_ga_upto_def)
  next
    case False
    then have "ga_loop pr operator u draws stop 1 st0 = Some (Inr st0)"
      by (simp add: ga_loop.simps)
    with start show ?thesis
      by (simp add: find_ga_upto_def)
  qed
qed

lemma small_run:
  "find_ga 4 3 small ''simple'' small_shuffled [1, 1] small_draws =
     Some (Inr ([5, 6, 6], [[1, 0, 1], [0, 1, 1], [0, 1, 1]]))"
  by code_simp

lemma small_state:
  "find_ga_upto 4 3 small ''simple'' small_shuffled [1, 1] small_draws 2 =
     Some (Inr \<lparr>population = [[0, 1, 1], [1, 0, 1], [1, 1, 0], [1, 0, 1]],
                fitness = [3, 5, 3, 5], fitness_record = [5, 6, 0],
                solution_record = [[1, 0, 1], [0, 1, 1], [0, 0, 0]]\<rparr>)"
  by code_simp

lemma small_state_2:
  "find_ga_upto 4 3 small ''simple'' small_shuffled [1, 1] small_draws 3 =
     Some (Inr \<lparr>population = [[0, 0, 1], [1, 0, 1], [1, 1, 0], [1, 0, 1]],
                fitness = [3, 5, 3, 5], fitness_record = [5, 6, 6],
                solution_record = [[1, 0, 1], [0, 1, 1], [0, 1, 1]]\<rparr>)"
  by code_simp

text \<open>
  C1. The state \<open>find_ga_upto \<dots> stop\<close> is the one at the end of initialization for
  \<open>stop \<le> 1\<close> and the one at the end of generation \<open>stop - 1\<close> otherwise. For a problem
  with non-negative capacities whose usage sums stay within 64 bits, in each of these
  states every row of the population is a binary vector with one entry per item and
  satisfies every capacity constraint.
\<close>

theorem population_feasible:
  assumes ws: "well_shaped pr" and bd: "within_int64 pr" and nn: "nonneg_capacities pr"
    and run: "find_ga_upto k total_iterations pr operator shuffled w draws stop = Some (Inr st)"
  shows "\<forall>x\<in>set (population st). length x = items pr \<and> binary x \<and> feasible pr x"
proof -
  from run obtain u st0 where
    start: "ga_start k total_iterations pr shuffled w = Inr (u, st0)" and
    loop: "ga_loop pr operator u draws stop 1 st0 = Some (Inr st)"
    by (auto simp: find_ga_upto_def split: sum.splits)
  have "population_ok pr (population st0)"
    using ga_start_returns [OF start] initialize_pop_returns [OF ws bd] by blast
  then have "population_ok pr (population st)"
    using ga_loop_population_ok [OF ws bd nn _ loop] by simp
  then show ?thesis
    by (simp add: population_ok_def)
qed

theorem population_feasible_witness:
  "well_shaped small \<and> within_int64 small \<and> nonneg_capacities small \<and>
   find_ga_upto 4 3 small ''simple'' small_shuffled [1, 1] small_draws 2 =
     Some (Inr \<lparr>population = [[0, 1, 1], [1, 0, 1], [1, 1, 0], [1, 0, 1]],
                fitness = [3, 5, 3, 5], fitness_record = [5, 6, 0],
                solution_record = [[1, 0, 1], [0, 1, 1], [0, 0, 0]]\<rparr>) \<and>
   feasible small [0, 1, 1] \<and> feasible small [1, 0, 1] \<and> feasible small [1, 1, 0]"
proof -
  note ws = small_shape
  have bd: "within_int64 small"
    by (simp add: within_int64_def small_def)
  have nn: "nonneg_capacities small"
    by (simp add: nonneg_capacities_def small_def)
  from population_feasible [OF ws bd nn small_state]
  have "feasible small [0, 1, 1] \<and> feasible small [1, 0, 1] \<and> feasible small [1, 1, 0]"
    by simp
  with ws bd nn small_state show ?thesis by blast
qed

text \<open>
  C8. In the fitness record that \<^verbatim>\<open>find_ga\<close> returns, the entry of every generation
  \<open>t \<ge> 1\<close> is at least the entry of generation \<open>t - 1\<close>.
\<close>

theorem elitism_monotone:
  assumes run: "find_ga k total_iterations pr operator shuffled w draws = Some (Inr (fr, sr))"
    and t: "1 \<le> t" "t < total_iterations"
  shows "fr ! (t - 1) \<le> fr ! t"
proof -
  from run obtain st where
    upto: "find_ga_upto k total_iterations pr operator shuffled w draws total_iterations = Some (Inr st)" and
    fr: "fr = fitness_record st"
    by (auto simp: find_ga_def split: option.splits sum.splits)
  from upto obtain u st0 where
    loop: "ga_loop pr operator u draws total_iterations 1 st0 = Some (Inr st)"
    by (auto simp: find_ga_upto_def split: sum.splits)
  have "nondecreasing_upto 1 (fitness_record st0)"
    by (simp add: nondecreasing_upto_def)
  from ga_loop_record [OF _ this loop]
  have "nondecreasing_upto total_iterations (fitness_record st)" by simp
  with t fr show ?thesis
    by (simp add: nondecreasing_upto_def)
qed

theorem elitism_monotone_witness:
  "find_ga 4 3 small ''simple'' small_shuffled [1, 1] small_draws =
     Some (Inr ([5, 6, 6], [[1, 0, 1], [0, 1, 1], [0, 1, 1]])) \<and>
   (1 :: nat) \<le> 1 \<and> (1 :: nat) < 3 \<and> [5, 6, 6 :: int] ! (1 - 1) \<le> [5, 6, 6] ! 1"
proof -
  have t: "(1 :: nat) \<le> 1" "(1 :: nat) < 3" by simp_all
  from elitism_monotone [OF small_run t]
  have "[5, 6, 6 :: int] ! (1 - 1) \<le> [5, 6, 6] ! 1" .
  with small_run t show ?thesis by blast
qed

text \<open>
  C2 at a failing input. In generation 1 of the run on \<open>small\<close> the child \<open>[0, 1, 1]\<close>, of
  fitness 6, replaces row 0; the fitness vector still holds 3 for that row. Generation 2
  then finds the least entry of the fitness vector at row 0 again and replaces the
  row, now the best of the population, by a child of fitness 4.
\<close>

theorem replaced_row_keeps_old_fitness:
  "find_ga_upto 4 3 small ''simple'' small_shuffled [1, 1] small_draws 2 =
     Some (Inr \<lparr>population = [[0, 1, 1], [1, 0, 1], [1, 1, 0], [1, 0, 1]],
                fitness = [3, 5, 3, 5], fitness_record = [5, 6, 0],
                solution_record = [[1, 0, 1], [0, 1, 1], [0, 0, 0]]\<rparr>) \<and>
   evaluate_child_fitness [0, 1, 1] small = 6 \<and>
   find_ga_upto 4 3 small ''simple'' small_shuffled [1, 1] small_draws 3 =
     Some (Inr \<lparr>population = [[0, 0, 1], [1, 0, 1], [1, 1, 0], [1, 0, 1]],
                fitness = [3, 5, 3, 5], fitness_record = [5, 6, 6],
                solution_record = [[1, 0, 1], [0, 1, 1], [0, 1, 1]]\<rparr>) \<and>
   evaluate_child_fitness [0, 0, 1] small = 4"
proof -
  have "evaluate_child_fitness [0, 1, 1] small = 6" "evaluate_child_fitness [0, 0, 1] small = 4"
    by code_simp+
  with small_state small_state_2 show ?thesis
    by blast
qed

end
